theory Spec2Isabelle
  imports Main "HOL-Library.Sublist"
begin

section \<open>Reasoning stage classifier (7-reasoning-response/console-reasoning.ts)\<close>

subsection \<open>Strings and lower-casing\<close>

text \<open>
  A JavaScript string is a sequence of UTF-16 code units; a code unit is modelled by its
  number. The four patterns of \<open>detectReasoningStage\<close> carry no flag, so \<open>\w\<close> and
  \<open>\b\<close> see the ASCII word characters only: digits, letters and the underscore.
\<close>

type_synonym code_unit = nat

type_synonym js_string = "code_unit list"

definition utf16 :: "string \<Rightarrow> js_string" where
  "utf16 s = map of_char s"

definition isWordChar :: "code_unit \<Rightarrow> bool" where
  "isWordChar c \<longleftrightarrow> (48 \<le> c \<and> c \<le> 57) \<or> (65 \<le> c \<and> c \<le> 90) \<or> c = 95 \<or> (97 \<le> c \<and> c \<le> 122)"

text \<open>
  \<open>String.prototype.toLowerCase\<close>: the ASCII capitals move to their small letters. Two
  units outside ASCII have a lower case inside it: U+0130 becomes \<open>i\<close> followed by U+0307,
  and U+212A (the Kelvin sign) becomes \<open>k\<close>. Every other unit outside ASCII is mapped by
  the Unicode tables to units outside ASCII again; the patterns below tell such units
  apart neither from each other nor from any other non-word unit, so they stay in place.
\<close>

definition lowerUnit :: "code_unit \<Rightarrow> js_string" where
  "lowerUnit c =
     (if 65 \<le> c \<and> c \<le> 90 then [c + 32]
      else if c = 304 then [105, 775]
      else if c = 8490 then [107]
      else [c])"

definition toLowerCase :: "js_string \<Rightarrow> js_string" where
  "toLowerCase s = concat (map lowerUnit s)"

subsection \<open>The regular expressions of the source\<close>

text \<open>
  The fragment of regular expressions that \<open>detectReasoningStage\<close> uses: a literal, the
  greedy \<open>\w*\<close>, the assertion \<open>\b\<close>, alternation, sequence and the optional group.
\<close>

datatype regex =
    Lit js_string
  | WordStar
  | Boundary
  | Alt regex regex
  | Seq regex regex
  | Opt regex

text \<open>A cursor is a position in the subject: the units before it and the units after it.\<close>

type_synonym cursor = "js_string \<times> js_string"

definition wordBefore :: "js_string \<Rightarrow> bool" where
  "wordBefore pre \<longleftrightarrow> pre \<noteq> [] \<and> isWordChar (last pre)"

definition wordAfter :: "js_string \<Rightarrow> bool" where
  "wordAfter rest \<longleftrightarrow> rest \<noteq> [] \<and> isWordChar (hd rest)"

text \<open>
  \<open>ends r c\<close> lists the cursors at which a match of \<open>r\<close> that starts at \<open>c\<close> can end,
  in the order a backtracking matcher tries them.
\<close>

fun ends :: "regex \<Rightarrow> cursor \<Rightarrow> cursor list" where
  "ends (Lit w) (pre, rest) =
     (if take (length w) rest = w then [(pre @ w, drop (length w) rest)] else [])"
| "ends WordStar (pre, rest) =
     map (\<lambda>k. (pre @ take k rest, drop k rest))
       (rev [0 ..< Suc (length (takeWhile isWordChar rest))])"
| "ends Boundary (pre, rest) =
     (if wordBefore pre \<noteq> wordAfter rest then [(pre, rest)] else [])"
| "ends (Alt a b) c = ends a c @ ends b c"
| "ends (Seq a b) c = concat (map (ends b) (ends a c))"
| "ends (Opt a) c = ends a c @ [c]"

text \<open>
  \<open>anywhere P pre rest\<close>: the property \<open>P\<close> holds at the cursor \<open>(pre, rest)\<close> or at a
  later cursor of the same subject.
\<close>

fun anywhere :: "(js_string \<Rightarrow> js_string \<Rightarrow> bool) \<Rightarrow> js_string \<Rightarrow> js_string \<Rightarrow> bool" where
  "anywhere P pre [] \<longleftrightarrow> P pre []"
| "anywhere P pre (c # cs) \<longleftrightarrow> P pre (c # cs) \<or> anywhere P (pre @ [c]) cs"

text \<open>
  \<open>RegExp.prototype.test\<close> without the global flag: the matcher tries every start
  index from 0 to the length of the subject and answers whether one of them matches.
\<close>

definition test :: "regex \<Rightarrow> js_string \<Rightarrow> bool" where
  "test r s = anywhere (\<lambda>pre rest. ends r (pre, rest) \<noteq> []) [] s"

definition alts :: "regex list \<Rightarrow> regex" where
  "alts rs = foldr Alt (butlast rs) (last rs)"

definition seqs :: "regex list \<Rightarrow> regex" where
  "seqs rs = foldr Seq (butlast rs) (last rs)"

definition lit :: "string \<Rightarrow> regex" where
  "lit s = Lit (utf16 s)"

text \<open>\<^verbatim>\<open>/\b(evaluat|validat|verif|check)\w*\b/\<close>\<close>

definition evaluatingRe :: regex where
  "evaluatingRe =
     seqs [Boundary,
           alts [lit ''evaluat'', lit ''validat'', lit ''verif'', lit ''check''],
           WordStar, Boundary]"

text \<open>\<^verbatim>\<open>/\b(execut\w*|implement(?:ing|ed)?|writ(?:ing|e|ten))\b/\<close>\<close>

definition executingRe :: regex where
  "executingRe =
     seqs [Boundary,
           alts [seqs [lit ''execut'', WordStar],
                 seqs [lit ''implement'', Opt (alts [lit ''ing'', lit ''ed''])],
                 seqs [lit ''writ'', alts [lit ''ing'', lit ''e'', lit ''ten'']]],
           Boundary]"

text \<open>\<^verbatim>\<open>/\b(decid|choos|select|determin)\w*\b/\<close>\<close>

definition decidingRe :: regex where
  "decidingRe =
     seqs [Boundary,
           alts [lit ''decid'', lit ''choos'', lit ''select'', lit ''determin''],
           WordStar, Boundary]"

text \<open>\<^verbatim>\<open>/\b(plan\w*|design|approach|strateg)\w*\b/\<close>\<close>

definition planningRe :: regex where
  "planningRe =
     seqs [Boundary,
           alts [seqs [lit ''plan'', WordStar], lit ''design'', lit ''approach'', lit ''strateg''],
           WordStar, Boundary]"

subsection \<open>detectReasoningStage\<close>

datatype ReasoningStage = ANALYZING | PLANNING | DECIDING | EXECUTING | EVALUATING

definition detectReasoningStage :: "js_string \<Rightarrow> ReasoningStage" where
  "detectReasoningStage text =
     (let lower = toLowerCase text in
      if test evaluatingRe lower then EVALUATING
      else if test executingRe lower then EXECUTING
      else if test decidingRe lower then DECIDING
      else if test planningRe lower then PLANNING
      else ANALYZING)"

subsection \<open>Keyword tokens, as the specification speaks of them\<close>

text \<open>
  The specification describes the classifier by the tokens a text contains. A token
  \<open>p*\<close> is a word of the lower-cased text that begins with \<open>p\<close>; a closed token is a
  whole word. A word begins where no word character precedes and ends where none
  follows.
\<close>

fun startsWith :: "js_string \<Rightarrow> js_string \<Rightarrow> bool" where
  "startsWith [] rest \<longleftrightarrow> True"
| "startsWith (x # p) [] \<longleftrightarrow> False"
| "startsWith (x # p) (c # cs) \<longleftrightarrow> (if x = c then startsWith p cs else False)"

fun wholeWord :: "js_string \<Rightarrow> js_string \<Rightarrow> bool" where
  "wholeWord [] rest \<longleftrightarrow> \<not> wordAfter rest"
| "wholeWord (x # w) [] \<longleftrightarrow> False"
| "wholeWord (x # w) (c # cs) \<longleftrightarrow> (if x = c then wholeWord w cs else False)"

text \<open>
  \<open>tokenFrom b p rest\<close>: a word that begins with \<open>p\<close> begins somewhere in \<open>rest\<close>, where
  \<open>b\<close> tells whether a word character stands just before \<open>rest\<close>.
\<close>

fun tokenFrom :: "bool \<Rightarrow> js_string \<Rightarrow> js_string \<Rightarrow> bool" where
  "tokenFrom b p [] \<longleftrightarrow> \<not> b \<and> startsWith p []"
| "tokenFrom b p (c # cs) \<longleftrightarrow>
     (if \<not> b \<and> startsWith p (c # cs) then True else tokenFrom (isWordChar c) p cs)"

fun wordFrom :: "bool \<Rightarrow> js_string \<Rightarrow> js_string \<Rightarrow> bool" where
  "wordFrom b w [] \<longleftrightarrow> \<not> b \<and> wholeWord w []"
| "wordFrom b w (c # cs) \<longleftrightarrow>
     (if \<not> b \<and> wholeWord w (c # cs) then True else wordFrom (isWordChar c) w cs)"

definition containsToken :: "js_string \<Rightarrow> js_string \<Rightarrow> bool" where
  "containsToken p s = tokenFrom False p s"

definition containsWord :: "js_string \<Rightarrow> js_string \<Rightarrow> bool" where
  "containsWord w s = wordFrom False w s"

definition evaluatingPrefixes :: "js_string list" where
  "evaluatingPrefixes = map utf16 [''evaluat'', ''validat'', ''verif'', ''check'']"

definition executingPrefixes :: "js_string list" where
  "executingPrefixes = map utf16 [''execut'']"

definition executingWords :: "js_string list" where
  "executingWords =
     map utf16 [''implement'', ''implementing'', ''implemented'', ''writing'', ''write'', ''written'']"

definition decidingPrefixes :: "js_string list" where
  "decidingPrefixes = map utf16 [''decid'', ''choos'', ''select'', ''determin'']"

definition planningPrefixes :: "js_string list" where
  "planningPrefixes = map utf16 [''plan'', ''design'', ''approach'', ''strateg'']"

definition hasEvaluatingToken :: "js_string \<Rightarrow> bool" where
  "hasEvaluatingToken s = list_ex (\<lambda>p. containsToken p (toLowerCase s)) evaluatingPrefixes"

definition hasExecutingToken :: "js_string \<Rightarrow> bool" where
  "hasExecutingToken s \<longleftrightarrow>
     list_ex (\<lambda>p. containsToken p (toLowerCase s)) executingPrefixes
     \<or> list_ex (\<lambda>w. containsWord w (toLowerCase s)) executingWords"

definition hasDecidingToken :: "js_string \<Rightarrow> bool" where
  "hasDecidingToken s = list_ex (\<lambda>p. containsToken p (toLowerCase s)) decidingPrefixes"

definition hasPlanningToken :: "js_string \<Rightarrow> bool" where
  "hasPlanningToken s = list_ex (\<lambda>p. containsToken p (toLowerCase s)) planningPrefixes"

text \<open>The Executing family in the specification's own words: \<open>implement*\<close> with any suffix.\<close>

definition specExecutingPrefixes :: "js_string list" where
  "specExecutingPrefixes = map utf16 [''execut'', ''implement'']"

definition specExecutingWords :: "js_string list" where
  "specExecutingWords = map utf16 [''write'', ''writing'', ''written'']"

definition hasSpecExecutingToken :: "js_string \<Rightarrow> bool" where
  "hasSpecExecutingToken s \<longleftrightarrow>
     list_ex (\<lambda>p. containsToken p (toLowerCase s)) specExecutingPrefixes
     \<or> list_ex (\<lambda>w. containsWord w (toLowerCase s)) specExecutingWords"

text \<open>The priority of a stage in the cascade: a later check has a lower priority.\<close>

fun priority :: "ReasoningStage \<Rightarrow> nat" where
  "priority ANALYZING = 0"
| "priority PLANNING = 1"
| "priority DECIDING = 2"
| "priority EXECUTING = 3"
| "priority EVALUATING = 4"

text \<open>The family of a stage is present in a text; \<open>ANALYZING\<close> has no token of its own.\<close>

fun hasTokenOf :: "ReasoningStage \<Rightarrow> js_string \<Rightarrow> bool" where
  "hasTokenOf EVALUATING s = hasEvaluatingToken s"
| "hasTokenOf EXECUTING s = hasExecutingToken s"
| "hasTokenOf DECIDING s = hasDecidingToken s"
| "hasTokenOf PLANNING s = hasPlanningToken s"
| "hasTokenOf ANALYZING s = False"

subsection \<open>Tokens at the join of two texts\<close>

text \<open>
  A whole word that does not end the text: at least one unit follows it, and that unit
  is no word character.
\<close>

fun wordThenBreak :: "js_string \<Rightarrow> js_string \<Rightarrow> bool" where
  "wordThenBreak [] rest \<longleftrightarrow> rest \<noteq> [] \<and> \<not> wordAfter rest"
| "wordThenBreak (x # w) [] \<longleftrightarrow> False"
| "wordThenBreak (x # w) (c # cs) \<longleftrightarrow> (if x = c then wordThenBreak w cs else False)"

fun innerWordFrom :: "bool \<Rightarrow> js_string \<Rightarrow> js_string \<Rightarrow> bool" where
  "innerWordFrom b w [] \<longleftrightarrow> \<not> b \<and> wordThenBreak w []"
| "innerWordFrom b w (c # cs) \<longleftrightarrow>
     (if \<not> b \<and> wordThenBreak w (c # cs) then True else innerWordFrom (isWordChar c) w cs)"

definition containsInnerWord :: "js_string \<Rightarrow> js_string \<Rightarrow> bool" where
  "containsInnerWord w s = innerWordFrom False w s"

text \<open>
  An Executing token that no continuation of the text can take away: a word that begins
  with \<open>execut\<close>, or one of the closed words before the end of the text.
\<close>

definition hasStableExecutingToken :: "js_string \<Rightarrow> bool" where
  "hasStableExecutingToken s \<longleftrightarrow>
     list_ex (\<lambda>p. containsToken p (toLowerCase s)) executingPrefixes
     \<or> list_ex (\<lambda>w. containsInnerWord w (toLowerCase s)) executingWords"

text \<open>The word characters that end a text, and the word that the join of two texts forms.\<close>

definition lastWord :: "js_string \<Rightarrow> js_string" where
  "lastWord l = rev (takeWhile isWordChar (rev l))"

definition joinedWord :: "js_string \<Rightarrow> js_string \<Rightarrow> js_string" where
  "joinedWord s t = lastWord (toLowerCase s) @ takeWhile isWordChar (toLowerCase t)"

text \<open>The fragment after its leading word characters, and the tokens that part holds.\<close>

definition restOf :: "js_string \<Rightarrow> js_string" where
  "restOf t = dropWhile isWordChar (toLowerCase t)"

definition restHasToken :: "js_string \<Rightarrow> bool" where
  "restHasToken t \<longleftrightarrow>
     list_ex (\<lambda>p. containsToken p (restOf t)) (evaluatingPrefixes @ executingPrefixes)
     \<or> list_ex (\<lambda>w. containsWord w (restOf t)) executingWords"

text \<open>
  The join takes the Executing token of \<open>s\<close> away and gives none back: \<open>s\<close> has no
  stable Executing token, \<open>t\<close> begins with a word character, the word formed at the
  join is no closed Executing word, and the rest of \<open>t\<close> has no Evaluating or
  Executing token.
\<close>

definition joinLosesToken :: "js_string \<Rightarrow> js_string \<Rightarrow> bool" where
  "joinLosesToken s t \<longleftrightarrow>
     \<not> hasStableExecutingToken s
     \<and> wordAfter (toLowerCase t)
     \<and> joinedWord s t \<notin> set executingWords
     \<and> \<not> restHasToken t"

subsection \<open>What a pattern matches\<close>

text \<open>
  \<open>matches r pre m post\<close>: in the subject \<open>pre @ m @ post\<close> the pattern \<open>r\<close> matches the
  units \<open>m\<close>. This is the declarative reading of \<open>ends\<close>, used in the proofs only.
\<close>

primrec matches :: "regex \<Rightarrow> js_string \<Rightarrow> js_string \<Rightarrow> js_string \<Rightarrow> bool" where
  "matches (Lit w) pre m post \<longleftrightarrow> m = w"
| "matches WordStar pre m post \<longleftrightarrow> (\<forall>c\<in>set m. isWordChar c)"
| "matches Boundary pre m post \<longleftrightarrow> m = [] \<and> wordBefore pre \<noteq> wordAfter post"
| "matches (Alt a b) pre m post \<longleftrightarrow> matches a pre m post \<or> matches b pre m post"
| "matches (Seq a b) pre m post \<longleftrightarrow>
     (\<exists>m1 m2. m = m1 @ m2 \<and> matches a pre m1 (m2 @ post) \<and> matches b (pre @ m1) m2 post)"
| "matches (Opt a) pre m post \<longleftrightarrow> m = [] \<or> matches a pre m post"

definition isWord :: "js_string \<Rightarrow> bool" where
  "isWord p \<longleftrightarrow> p \<noteq> [] \<and> (\<forall>c\<in>set p. isWordChar c)"

section \<open>Console output (console.ts and 7-reasoning-response/console-reasoning.ts)\<close>

text \<open>
  What the console modules write. Colours, icons and the exact wording of the speaker
  label are left to the terminal; \<open>SpeakerLabel\<close> stands for the styled prefix
  \<open>Claude\<close> with its separator, \<open>Newline\<close> for a line break, and \<open>console.log(x)\<close>
  writes \<open>x\<close> followed by a line break.
\<close>

datatype out =
    SpeakerLabel
  | Written string
  | Newline
  | StageHeader ReasoningStage bool
  | Thinking ReasoningStage string

text \<open>The module-level variables of a console module, with the output written so far.\<close>

record console_out_state =
  claudeTurnStarted :: bool
  stdout :: "out list"

record console_reasoning_state = console_out_state +
  reasoningBlockActive :: bool

subsection \<open>console.ts\<close>

definition console_out_claude :: "string \<Rightarrow> console_out_state \<Rightarrow> console_out_state" where
  "console_out_claude text st =
     (if \<not> claudeTurnStarted st
      then st\<lparr>stdout := stdout st @ [SpeakerLabel, Written text, Newline],
              claudeTurnStarted := True\<rparr>
      else st\<lparr>stdout := stdout st @ [Written text, Newline]\<rparr>)"

definition console_out_finishClaudeTurn :: "console_out_state \<Rightarrow> console_out_state" where
  "console_out_finishClaudeTurn st =
     (if claudeTurnStarted st
      then st\<lparr>stdout := stdout st @ [Newline], claudeTurnStarted := False\<rparr>
      else st)"

subsection \<open>console-reasoning.ts\<close>

definition console_reasoning_claude ::
  "string \<Rightarrow> console_reasoning_state \<Rightarrow> console_reasoning_state" where
  "console_reasoning_claude text st =
     (if \<not> claudeTurnStarted st
      then st\<lparr>stdout := stdout st @ [Newline, SpeakerLabel, Written text, Newline],
              claudeTurnStarted := True\<rparr>
      else st\<lparr>stdout := stdout st @ [Newline, Written text, Newline]\<rparr>)"

definition console_reasoning_claudeStream ::
  "string \<Rightarrow> console_reasoning_state \<Rightarrow> console_reasoning_state" where
  "console_reasoning_claudeStream delta st =
     (let st1 = (if \<not> claudeTurnStarted st
                 then st\<lparr>stdout := stdout st @ [Newline, SpeakerLabel],
                         claudeTurnStarted := True\<rparr>
                 else st)
      in st1\<lparr>stdout := stdout st1 @ [Written delta]\<rparr>)"

definition console_reasoning_reasoningStart ::
  "ReasoningStage \<Rightarrow> bool \<Rightarrow> console_reasoning_state \<Rightarrow> console_reasoning_state" where
  "console_reasoning_reasoningStart stage collapsed st =
     st\<lparr>reasoningBlockActive := True,
        stdout := stdout st @ [Newline, StageHeader stage collapsed, Newline]\<rparr>"

definition console_reasoning_thinkingStream ::
  "string \<Rightarrow> ReasoningStage \<Rightarrow> console_reasoning_state \<Rightarrow> console_reasoning_state" where
  "console_reasoning_thinkingStream delta stage st =
     st\<lparr>stdout := stdout st @ [Thinking stage delta]\<rparr>"

definition console_reasoning_reasoningEnd ::
  "console_reasoning_state \<Rightarrow> console_reasoning_state" where
  "console_reasoning_reasoningEnd st =
     (if reasoningBlockActive st
      then st\<lparr>stdout := stdout st @ [Newline], reasoningBlockActive := False\<rparr>
      else st)"

definition console_reasoning_finishClaudeTurn ::
  "console_reasoning_state \<Rightarrow> console_reasoning_state" where
  "console_reasoning_finishClaudeTurn st =
     (let st1 = (if claudeTurnStarted st
                 then st\<lparr>stdout := stdout st @ [Newline], claudeTurnStarted := False\<rparr>
                 else st)
      in st1\<lparr>reasoningBlockActive := False\<rparr>)"

text \<open>The text deltas of one assistant turn, shown one after the other.\<close>

definition streamDeltas :: "string list \<Rightarrow> console_reasoning_state \<Rightarrow> console_reasoning_state" where
  "streamDeltas ds st = foldl (\<lambda>s d. console_reasoning_claudeStream d s) st ds"

definition printTexts :: "string list \<Rightarrow> console_out_state \<Rightarrow> console_out_state" where
  "printTexts ts st = foldl (\<lambda>s t. console_out_claude t s) st ts"

definition labelCount :: "out list \<Rightarrow> nat" where
  "labelCount os = length (filter (\<lambda>x. x = SpeakerLabel) os)"

section \<open>Conversation, tool dispatch and the agent loop\<close>

text \<open>
  Modelled from the spec: the agent class (\<open>agent.ts\<close>, constructed and run by the
  entry point \<open>index.ts\<close>) and the tool modules are not among the sources. The
  definitions of this section follow sections 3, 4.2, 4.5 and 7 of the specification.
\<close>

subsection \<open>Conversation state (section 3)\<close>

record tool_use =
  tu_id :: string
  tu_name :: string
  tu_input :: string

datatype content_block =
    TextBlock string
  | ToolUseBlock tool_use
  | ToolResultBlock (tool_use_id: string) (result_content: string) (is_error: bool)

datatype role = User | Assistant

record turn =
  role :: role
  blocks :: "content_block list"

type_synonym ConversationState = "turn list"

record ToolOutcome =
  toolUseId :: string
  content :: string
  isError :: bool

fun toolUses :: "content_block list \<Rightarrow> tool_use list" where
  "toolUses [] = []"
| "toolUses (ToolUseBlock u # bs) = u # toolUses bs"
| "toolUses (b # bs) = toolUses bs"

fun toolResultIds :: "content_block list \<Rightarrow> string list" where
  "toolResultIds [] = []"
| "toolResultIds (ToolResultBlock i c e # bs) = i # toolResultIds bs"
| "toolResultIds (b # bs) = toolResultIds bs"

text \<open>
  Modelled from the spec: the invariant of section 3. A turn that carries
  \<open>tool_result\<close> blocks is a user turn, the turn just before it is an assistant turn,
  and every identifier of a result names exactly one \<open>tool_use\<close> block of that
  assistant turn.
\<close>

definition matchesExactlyOne :: "tool_use list \<Rightarrow> string \<Rightarrow> bool" where
  "matchesExactlyOne us i \<longleftrightarrow> length (filter (\<lambda>u. tu_id u = i) us) = 1"

definition resultsPaired :: "turn option \<Rightarrow> turn \<Rightarrow> bool" where
  "resultsPaired prev t \<longleftrightarrow>
     toolResultIds (blocks t) = []
     \<or> (role t = User
         \<and> (case prev of
               None \<Rightarrow> False
             | Some p \<Rightarrow> role p = Assistant
                   \<and> list_all (matchesExactlyOne (toolUses (blocks p))) (toolResultIds (blocks t))))"

fun conversationInvariantFrom :: "turn option \<Rightarrow> ConversationState \<Rightarrow> bool" where
  "conversationInvariantFrom prev [] \<longleftrightarrow> True"
| "conversationInvariantFrom prev (t # ts) \<longleftrightarrow>
     resultsPaired prev t \<and> conversationInvariantFrom (Some t) ts"

definition conversationInvariant :: "ConversationState \<Rightarrow> bool" where
  "conversationInvariant c = conversationInvariantFrom None c"

subsection \<open>Tool registry and dispatcher (section 4.2)\<close>

text \<open>
  Modelled from the spec: a tool's \<open>execute\<close> takes the input and the state of the world
  it acts on; it answers \<open>Inr\<close> the returned string, or \<open>Inl\<close> the failure message when
  it rejects, and leaves the world changed. The registry maps a tool name to the
  \<open>execute\<close> of the tool registered under it.
\<close>

type_synonym 'w execute = "string \<Rightarrow> 'w \<Rightarrow> (string + string) \<times> 'w"

type_synonym 'w ToolRegistry = "string \<rightharpoonup> 'w execute"

datatype notification =
    ToolStarted string
  | ToolFinished string bool
  | ErrorRaised string

text \<open>
  Modelled from the spec: \<open>dispatch(toolUseBlock) -> ToolOutcome\<close>. The notifications
  "tool started" and "tool finished" go to the presentation sink before and after.
\<close>

definition dispatch ::
  "'w ToolRegistry \<Rightarrow> tool_use \<Rightarrow> 'w \<times> notification list
     \<Rightarrow> ToolOutcome \<times> ('w \<times> notification list)" where
  "dispatch registry b st =
     (case st of (w, shown) \<Rightarrow>
        (case registry (tu_name b) of
           None \<Rightarrow>
             (\<lparr>toolUseId = tu_id b, content = ''tool not found: '' @ tu_name b, isError = True\<rparr>,
              (w, shown @ [ToolStarted (tu_name b), ToolFinished (tu_name b) False]))
         | Some execute \<Rightarrow>
             (case execute (tu_input b) w of
                (Inr returned, w') \<Rightarrow>
                  (\<lparr>toolUseId = tu_id b, content = returned, isError = False\<rparr>,
                   (w', shown @ [ToolStarted (tu_name b), ToolFinished (tu_name b) True]))
              | (Inl failure, w') \<Rightarrow>
                  (\<lparr>toolUseId = tu_id b, content = failure, isError = True\<rparr>,
                   (w', shown @ [ToolStarted (tu_name b), ToolFinished (tu_name b) False])))))"

text \<open>
  Modelled from the spec: the blocks of one assistant turn are dispatched in the order of
  the stream, one at a time; the next dispatch starts from what the one before left.
\<close>

fun dispatchAll ::
  "'w ToolRegistry \<Rightarrow> tool_use list \<Rightarrow> 'w \<times> notification list
     \<Rightarrow> ToolOutcome list \<times> ('w \<times> notification list)" where
  "dispatchAll registry [] st = ([], st)"
| "dispatchAll registry (b # bs) st =
     (case dispatch registry b st of
        (outcome, st') \<Rightarrow>
          (case dispatchAll registry bs st' of
             (outcomes, st'') \<Rightarrow> (outcome # outcomes, st'')))"

definition toolResult :: "ToolOutcome \<Rightarrow> content_block" where
  "toolResult outcome = ToolResultBlock (toolUseId outcome) (content outcome) (isError outcome)"


subsection \<open>The agent loop (section 4.5)\<close>

datatype phase = AwaitingInput | Requesting | Streaming | Dispatching

text \<open>
  Modelled from the spec: a block that the stream demultiplexer has finalized for the
  assistant turn. Thinking blocks are shown but not kept, and the inference service
  produces no \<open>tool_result\<close>.
\<close>

datatype assistant_block = FinalText string | FinalToolUse tool_use

fun assistantContent :: "assistant_block \<Rightarrow> content_block" where
  "assistantContent (FinalText t) = TextBlock t"
| "assistantContent (FinalToolUse u) = ToolUseBlock u"

record 'w loop_state =
  phase :: phase
  conversation :: ConversationState
  collected :: "assistant_block list"
  world :: 'w
  shown :: "notification list"

text \<open>
  Modelled from the spec: what the loop waits for at its suspension points, and its own
  move from \<open>Dispatching\<close>.
\<close>

datatype action =
    UserLine string
  | RequestIssued
  | BlockFinalized assistant_block
  | StreamEnded
  | TransportError string
  | DispatchTools

definition initial :: "'w \<Rightarrow> 'w loop_state" where
  "initial w = \<lparr>phase = AwaitingInput, conversation = [], collected = [], world = w, shown = []\<rparr>"

definition abortTurn :: "string \<Rightarrow> 'w loop_state \<Rightarrow> 'w loop_state" where
  "abortTurn message st =
     st\<lparr>phase := AwaitingInput, collected := [], shown := shown st @ [ErrorRaised message]\<rparr>"

definition finishStream :: "'w loop_state \<Rightarrow> 'w loop_state" where
  "finishStream st =
     (let assistantTurn = \<lparr>role = Assistant, blocks = map assistantContent (collected st)\<rparr> in
      st\<lparr>conversation := conversation st @ [assistantTurn],
         collected := [],
         phase := (if toolUses (blocks assistantTurn) \<noteq> [] then Dispatching else AwaitingInput)\<rparr>)"

definition dispatchTurn :: "'w ToolRegistry \<Rightarrow> 'w loop_state \<Rightarrow> 'w loop_state" where
  "dispatchTurn registry st =
     (case conversation st of
        [] \<Rightarrow> st
      | _ # _ \<Rightarrow>
          (case dispatchAll registry (toolUses (blocks (last (conversation st)))) (world st, shown st) of
             (outcomes, (w', shown')) \<Rightarrow>
               st\<lparr>conversation := conversation st @ [\<lparr>role = User, blocks = map toolResult outcomes\<rparr>],
                  world := w',
                  shown := shown',
                  phase := Requesting\<rparr>))"

text \<open>
  Modelled from the spec: one transition of the state machine. An action that the
  current phase does not offer leaves the state as it is.
\<close>

fun step :: "'w ToolRegistry \<Rightarrow> 'w loop_state \<Rightarrow> action \<Rightarrow> 'w loop_state" where
  "step registry st (UserLine line) =
     (if phase st = AwaitingInput
      then st\<lparr>conversation := conversation st @ [\<lparr>role = User, blocks = [TextBlock line]\<rparr>],
              phase := Requesting\<rparr>
      else st)"
| "step registry st RequestIssued =
     (if phase st = Requesting then st\<lparr>phase := Streaming\<rparr> else st)"
| "step registry st (BlockFinalized b) =
     (if phase st = Streaming then st\<lparr>collected := collected st @ [b]\<rparr> else st)"
| "step registry st StreamEnded =
     (if phase st = Streaming then finishStream st else st)"
| "step registry st (TransportError message) =
     (if phase st = Requesting \<or> phase st = Streaming then abortTurn message st else st)"
| "step registry st DispatchTools =
     (if phase st = Dispatching then dispatchTurn registry st else st)"

fun run :: "'w ToolRegistry \<Rightarrow> 'w loop_state \<Rightarrow> action list \<Rightarrow> 'w loop_state" where
  "run registry st [] = st"
| "run registry st (a # as) = run registry (step registry st a) as"

text \<open>
  The pairing that the loop builds: the results of a user turn answer the \<open>tool_use\<close>
  blocks of the assistant turn just before it, position by position, each under the
  identifier of its block.
\<close>

definition pairedInOrder :: "turn option \<Rightarrow> turn \<Rightarrow> bool" where
  "pairedInOrder prev t \<longleftrightarrow>
     toolResultIds (blocks t) = []
     \<or> (role t = User
         \<and> (case prev of
               None \<Rightarrow> False
             | Some p \<Rightarrow> role p = Assistant
                   \<and> toolResultIds (blocks t) = map tu_id (toolUses (blocks p))))"

fun orderedFrom :: "turn option \<Rightarrow> ConversationState \<Rightarrow> bool" where
  "orderedFrom prev [] \<longleftrightarrow> True"
| "orderedFrom prev (t # ts) \<longleftrightarrow> pairedInOrder prev t \<and> orderedFrom (Some t) ts"

definition conversationOrdered :: "ConversationState \<Rightarrow> bool" where
  "conversationOrdered c = orderedFrom None c"

text \<open>The \<open>tool_use\<close> blocks of each turn carry identifiers that differ from each other.\<close>

definition distinctIds :: "ConversationState \<Rightarrow> bool" where
  "distinctIds c = list_all (\<lambda>t. distinct (map tu_id (toolUses (blocks t)))) c"

text \<open>What the loop keeps true between its transitions; used in the proofs only.\<close>

definition loopOrdered :: "'w loop_state \<Rightarrow> bool" where
  "loopOrdered st \<longleftrightarrow>
     conversationOrdered (conversation st)
     \<and> (phase st = Dispatching \<longrightarrow>
          conversation st \<noteq> [] \<and> role (last (conversation st)) = Assistant)"

section \<open>Properties of the stage classifier\<close>

subsection \<open>The matcher computes the declarative reading\<close>

lemma take_eq_iff_append: "take (length w) rest = w \<longleftrightarrow> (\<exists>post. rest = w @ post)"
  by (metis append_eq_conv_conj append_take_drop_id)

lemma le_takeWhile_iff:
  "k \<le> length (takeWhile P xs) \<longleftrightarrow> k \<le> length xs \<and> (\<forall>c\<in>set (take k xs). P c)"
proof (induction xs arbitrary: k)
  case Nil
  then show ?case by simp
next
  case (Cons x xs)
  then show ?case by (cases k) auto
qed

lemma ends_WordStar_iff:
  "c' \<in> set (ends WordStar (pre, rest)) \<longleftrightarrow>
     (\<exists>m post. rest = m @ post \<and> c' = (pre @ m, post) \<and> (\<forall>c\<in>set m. isWordChar c))"
proof
  assume "c' \<in> set (ends WordStar (pre, rest))"
  then obtain k where k: "k \<le> length (takeWhile isWordChar rest)"
    and c': "c' = (pre @ take k rest, drop k rest)"
    by (auto simp del: upt_Suc simp: less_Suc_eq_le)
  from k have "\<forall>c\<in>set (take k rest). isWordChar c"
    by (simp add: le_takeWhile_iff)
  with c' show "\<exists>m post. rest = m @ post \<and> c' = (pre @ m, post) \<and> (\<forall>c\<in>set m. isWordChar c)"
    by (intro exI [of _ "take k rest"] exI [of _ "drop k rest"]) simp
next
  assume "\<exists>m post. rest = m @ post \<and> c' = (pre @ m, post) \<and> (\<forall>c\<in>set m. isWordChar c)"
  then obtain m post where r: "rest = m @ post" and c': "c' = (pre @ m, post)"
    and w: "\<forall>c\<in>set m. isWordChar c" by blast
  from r w have "length m \<le> length (takeWhile isWordChar rest)"
    by (simp add: le_takeWhile_iff)
  moreover from r c' have "c' = (pre @ take (length m) rest, drop (length m) rest)" by simp
  ultimately show "c' \<in> set (ends WordStar (pre, rest))"
    by (auto simp del: upt_Suc simp: less_Suc_eq_le image_iff intro!: bexI [of _ "length m"])
qed

lemma ends_iff:
  "c' \<in> set (ends r (pre, rest)) \<longleftrightarrow>
     (\<exists>m post. rest = m @ post \<and> c' = (pre @ m, post) \<and> matches r pre m post)"
proof (induction r arbitrary: pre rest c')
  case (Lit w)
  show ?case by (auto simp: take_eq_iff_append)
next
  case WordStar
  show ?case by (simp only: ends_WordStar_iff matches.simps)
next
  case Boundary
  show ?case by auto
next
  case (Alt a b)
  then show ?case by auto
next
  case (Seq a b)
  show ?case
  proof
    assume "c' \<in> set (ends (Seq a b) (pre, rest))"
    then obtain c1 where c1: "c1 \<in> set (ends a (pre, rest))" and c2: "c' \<in> set (ends b c1)"
      by auto
    from c1 Seq.IH(1) obtain m1 post1 where 1: "rest = m1 @ post1" "c1 = (pre @ m1, post1)"
      "matches a pre m1 post1" by blast
    from c2 1 Seq.IH(2) [of c' "pre @ m1" post1] obtain m2 post where
      2: "post1 = m2 @ post" "c' = ((pre @ m1) @ m2, post)" "matches b (pre @ m1) m2 post"
      by blast
    from 1 2 show "\<exists>m post. rest = m @ post \<and> c' = (pre @ m, post) \<and> matches (Seq a b) pre m post"
      by (intro exI [of _ "m1 @ m2"] exI [of _ post]) auto
  next
    assume "\<exists>m post. rest = m @ post \<and> c' = (pre @ m, post) \<and> matches (Seq a b) pre m post"
    then obtain m1 m2 post where r: "rest = (m1 @ m2) @ post" and c': "c' = (pre @ m1 @ m2, post)"
      and a: "matches a pre m1 (m2 @ post)" and b: "matches b (pre @ m1) m2 post"
      by auto
    from r a Seq.IH(1) [of "(pre @ m1, m2 @ post)" pre rest]
    have "(pre @ m1, m2 @ post) \<in> set (ends a (pre, rest))" by auto
    moreover from b c' Seq.IH(2) [of c' "pre @ m1" "m2 @ post"]
    have "c' \<in> set (ends b (pre @ m1, m2 @ post))" by auto
    ultimately show "c' \<in> set (ends (Seq a b) (pre, rest))" by auto
  qed
next
  case (Opt a)
  then show ?case by auto
qed

lemma anywhere_iff: "anywhere P pre rest \<longleftrightarrow> (\<exists>a b. rest = a @ b \<and> P (pre @ a) b)"
proof (induction rest arbitrary: pre)
  case Nil
  show ?case by simp
next
  case (Cons c cs)
  show ?case
  proof
    assume "anywhere P pre (c # cs)"
    then consider "P pre (c # cs)" | "anywhere P (pre @ [c]) cs" by auto
    then show "\<exists>a b. c # cs = a @ b \<and> P (pre @ a) b"
    proof cases
      case 1
      then show ?thesis by (intro exI [of _ "[]"] exI [of _ "c # cs"]) simp
    next
      case 2
      with Cons.IH obtain a b where "cs = a @ b" "P ((pre @ [c]) @ a) b" by blast
      then show ?thesis by (intro exI [of _ "c # a"] exI [of _ b]) simp
    qed
  next
    assume "\<exists>a b. c # cs = a @ b \<and> P (pre @ a) b"
    then obtain a b where ab: "c # cs = a @ b" and P: "P (pre @ a) b" by blast
    show "anywhere P pre (c # cs)"
    proof (cases a)
      case Nil
      with ab P show ?thesis by auto
    next
      case (Cons x xs)
      with ab P have "cs = xs @ b" "P ((pre @ [c]) @ xs) b" by auto
      with Cons.IH have "anywhere P (pre @ [c]) cs" by blast
      then show ?thesis by simp
    qed
  qed
qed

lemma test_iff: "test r s \<longleftrightarrow> (\<exists>pre m post. s = pre @ m @ post \<and> matches r pre m post)"
proof -
  have "ends r (pre, rest) \<noteq> [] \<longleftrightarrow> (\<exists>m post. rest = m @ post \<and> matches r pre m post)"
    for pre rest
  proof -
    have "ends r (pre, rest) \<noteq> [] \<longleftrightarrow> (\<exists>c'. c' \<in> set (ends r (pre, rest)))"
      by (cases "ends r (pre, rest)") auto
    also have "\<dots> \<longleftrightarrow> (\<exists>m post. rest = m @ post \<and> matches r pre m post)"
      unfolding ends_iff by blast
    finally show ?thesis .
  qed
  then show ?thesis by (simp add: test_def anywhere_iff) blast
qed

lemma startsWith_iff: "startsWith p rest \<longleftrightarrow> (\<exists>post. rest = p @ post)"
  by (induction p rest rule: startsWith.induct) auto

lemma wholeWord_iff: "wholeWord w rest \<longleftrightarrow> (\<exists>post. rest = w @ post \<and> \<not> wordAfter post)"
  by (induction w rest rule: wholeWord.induct) auto

lemma from_iff:
  assumes nil: "\<And>b. F b [] \<longleftrightarrow> \<not> b \<and> Q []"
    and cons: "\<And>b c cs. F b (c # cs) \<longleftrightarrow> (\<not> b \<and> Q (c # cs)) \<or> F (isWordChar c) cs"
  shows "F b rest \<longleftrightarrow>
           (\<exists>a r. rest = a @ r \<and> Q r \<and> \<not> (if a = [] then b else isWordChar (last a)))"
proof (induction rest arbitrary: b)
  case Nil
  show ?case by (simp add: nil) blast
next
  case (Cons c cs)
  show ?case
  proof
    assume "F b (c # cs)"
    then consider "\<not> b" "Q (c # cs)" | "F (isWordChar c) cs" by (auto simp: cons)
    then show "\<exists>a r. c # cs = a @ r \<and> Q r \<and> \<not> (if a = [] then b else isWordChar (last a))"
    proof cases
      case 1
      then show ?thesis by (intro exI [of _ "[]"] exI [of _ "c # cs"]) simp
    next
      case 2
      with Cons.IH obtain a r where "cs = a @ r" "Q r"
        "\<not> (if a = [] then isWordChar c else isWordChar (last a))" by blast
      then show ?thesis by (intro exI [of _ "c # a"] exI [of _ r]) auto
    qed
  next
    assume "\<exists>a r. c # cs = a @ r \<and> Q r \<and> \<not> (if a = [] then b else isWordChar (last a))"
    then obtain a r where ar: "c # cs = a @ r" and Q: "Q r"
      and nb: "\<not> (if a = [] then b else isWordChar (last a))" by blast
    show "F b (c # cs)"
    proof (cases a)
      case Nil
      with ar Q nb show ?thesis by (auto simp: cons)
    next
      case (Cons x xs)
      with ar Q nb have "cs = xs @ r" "Q r"
        "\<not> (if xs = [] then isWordChar c else isWordChar (last xs))" by auto
      with Cons.IH have "F (isWordChar c) cs" by blast
      then show ?thesis by (simp add: cons)
    qed
  qed
qed

lemma containsToken_iff:
  "containsToken p s \<longleftrightarrow> (\<exists>pre post. s = pre @ p @ post \<and> \<not> wordBefore pre)"
proof -
  have "tokenFrom b p rest \<longleftrightarrow>
          (\<exists>a r. rest = a @ r \<and> startsWith p r \<and> \<not> (if a = [] then b else isWordChar (last a)))"
    for b rest
    by (rule from_iff) auto
  then show ?thesis
    by (simp add: containsToken_def startsWith_iff wordBefore_def) blast
qed

lemma containsWord_iff:
  "containsWord w s \<longleftrightarrow>
     (\<exists>pre post. s = pre @ w @ post \<and> \<not> wordBefore pre \<and> \<not> wordAfter post)"
proof -
  have "wordFrom b w rest \<longleftrightarrow>
          (\<exists>a r. rest = a @ r \<and> wholeWord w r \<and> \<not> (if a = [] then b else isWordChar (last a)))"
    for b rest
    by (rule from_iff) auto
  then show ?thesis
    by (simp add: containsWord_def wholeWord_iff wordBefore_def) blast
qed

lemma wordAfter_word: "isWord p \<Longrightarrow> wordAfter (p @ x)"
  by (cases p) (auto simp: isWord_def wordAfter_def)

lemma wordBefore_word: "isWord p \<Longrightarrow> wordBefore (x @ p)"
  by (auto simp: isWord_def wordBefore_def)

lemma wordBefore_wordchars:
  "wordBefore x \<Longrightarrow> \<forall>c\<in>set w. isWordChar c \<Longrightarrow> wordBefore (x @ w)"
  by (cases "w = []") (auto simp: wordBefore_def)

lemma not_wordAfter_dropWhile: "\<not> wordAfter (dropWhile isWordChar x)"
  unfolding wordAfter_def using hd_dropWhile [of isWordChar x] by blast

lemma word_tail:
  assumes "wordBefore x"
  shows "matches (Seq WordStar Boundary) x (takeWhile isWordChar y) (dropWhile isWordChar y)"
proof -
  have "\<forall>c\<in>set (takeWhile isWordChar y). isWordChar c" by (auto dest: set_takeWhileD)
  with assms have "wordBefore (x @ takeWhile isWordChar y)" by (rule wordBefore_wordchars)
  then show ?thesis
    using not_wordAfter_dropWhile [of y]
    by (auto dest: set_takeWhileD intro!: exI [of _ "takeWhile isWordChar y"])
qed

text \<open>
  A pattern \<^verbatim>\<open>\b(A)\w*\b\<close> whose group \<open>A\<close> matches a prefix from \<open>ps\<close>, followed by
  word characters at most, finds the words that begin with a prefix from \<open>ps\<close>.
\<close>

lemma prefix_family:
  assumes words: "\<forall>p\<in>set ps. isWord p"
    and sound: "\<And>pre m post. matches A pre m post \<Longrightarrow>
                  \<exists>p\<in>set ps. \<exists>w. m = p @ w \<and> (\<forall>c\<in>set w. isWordChar c)"
    and complete: "\<And>p pre post. p \<in> set ps \<Longrightarrow> matches A pre p post"
  shows "test (Seq Boundary (Seq A (Seq WordStar Boundary))) s
           \<longleftrightarrow> list_ex (\<lambda>p. containsToken p s) ps"
proof
  assume "test (Seq Boundary (Seq A (Seq WordStar Boundary))) s"
  then obtain pre m post where s0: "s = pre @ m @ post"
    and M: "matches (Seq Boundary (Seq A (Seq WordStar Boundary))) pre m post"
    unfolding test_iff by blast
  from M obtain mA m2 where m: "m = mA @ m2"
    and b: "wordBefore pre \<noteq> wordAfter ((mA @ m2) @ post)"
    and A: "matches A pre mA (m2 @ post)"
    by fastforce
  from s0 m have s: "s = pre @ (mA @ m2) @ post" by simp
  from sound [OF A] obtain p w where p: "p \<in> set ps" and mA: "mA = p @ w" by blast
  from p words have "isWord p" by blast
  then have "wordAfter (p @ (w @ m2 @ post))" by (rule wordAfter_word)
  with b mA have "\<not> wordBefore pre" by simp
  moreover from s mA have "s = pre @ p @ (w @ m2 @ post)" by simp
  ultimately have "containsToken p s" unfolding containsToken_iff by blast
  with p show "list_ex (\<lambda>p. containsToken p s) ps" by (auto simp: list_ex_iff)
next
  assume "list_ex (\<lambda>p. containsToken p s) ps"
  then obtain p pre post where p: "p \<in> set ps" and s: "s = pre @ p @ post"
    and nb: "\<not> wordBefore pre"
    by (auto simp: list_ex_iff containsToken_iff)
  let ?w = "takeWhile isWordChar post" and ?post = "dropWhile isWordChar post"
  from p words have ip: "isWord p" by blast
  then have wb: "wordBefore (pre @ p)" by (rule wordBefore_word)
  have 1: "matches Boundary pre [] (p @ ?w @ ?post)"
    using nb wordAfter_word [OF ip, of "?w @ ?post"] by simp
  have 2: "matches A pre p (?w @ ?post)" using p by (rule complete)
  have 3: "matches (Seq WordStar Boundary) (pre @ p) ?w ?post" using wb by (rule word_tail)
  have "matches (Seq A (Seq WordStar Boundary)) pre (p @ ?w) ?post"
    unfolding matches.simps(5) [of A]
    using 2 3 by (intro exI [of _ p] exI [of _ ?w]) simp
  with 1 have "matches (Seq Boundary (Seq A (Seq WordStar Boundary))) pre (p @ ?w) ?post"
    unfolding matches.simps(5) [of Boundary]
    by (intro exI [of _ "[]"] exI [of _ "p @ ?w"]) simp
  moreover from s have "s = pre @ (p @ ?w) @ ?post" by simp
  ultimately show "test (Seq Boundary (Seq A (Seq WordStar Boundary))) s"
    unfolding test_iff by blast
qed

subsection \<open>The four patterns in terms of tokens\<close>

lemma evaluatingPrefixes_words: "\<forall>p\<in>set evaluatingPrefixes. isWord p"
  by (simp add: evaluatingPrefixes_def isWord_def utf16_def isWordChar_def)

lemma decidingPrefixes_words: "\<forall>p\<in>set decidingPrefixes. isWord p"
  by (simp add: decidingPrefixes_def isWord_def utf16_def isWordChar_def)

lemma planningPrefixes_words: "\<forall>p\<in>set planningPrefixes. isWord p"
  by (simp add: planningPrefixes_def isWord_def utf16_def isWordChar_def)

lemma executingPrefixes_words: "\<forall>p\<in>set executingPrefixes. isWord p"
  by (simp add: executingPrefixes_def isWord_def utf16_def isWordChar_def)

lemma executingWords_words: "\<forall>p\<in>set executingWords. isWord p"
  by (simp add: executingWords_def isWord_def utf16_def isWordChar_def)

lemma test_evaluatingRe:
  "test evaluatingRe s \<longleftrightarrow> list_ex (\<lambda>p. containsToken p s) evaluatingPrefixes"
  unfolding evaluatingRe_def seqs_def
  by (simp, rule prefix_family [OF evaluatingPrefixes_words])
     (auto simp: alts_def lit_def evaluatingPrefixes_def)

lemma test_decidingRe:
  "test decidingRe s \<longleftrightarrow> list_ex (\<lambda>p. containsToken p s) decidingPrefixes"
  unfolding decidingRe_def seqs_def
  by (simp, rule prefix_family [OF decidingPrefixes_words])
     (auto simp: alts_def lit_def decidingPrefixes_def)

lemma test_planningRe:
  "test planningRe s \<longleftrightarrow> list_ex (\<lambda>p. containsToken p s) planningPrefixes"
  unfolding planningRe_def seqs_def
  by (simp, rule prefix_family [OF planningPrefixes_words])
     (auto simp: alts_def lit_def planningPrefixes_def)

lemma isWord_append_wordchars: "isWord p \<Longrightarrow> \<forall>c\<in>set w. isWordChar c \<Longrightarrow> isWord (p @ w)"
  by (auto simp: isWord_def)

text \<open>
  A pattern \<^verbatim>\<open>\b(A)\b\<close> whose group \<open>A\<close> matches a prefix from \<open>ps\<close> followed by word
  characters, or a word from \<open>ws\<close>, finds the words that begin with a prefix from \<open>ps\<close>
  and the whole words from \<open>ws\<close>.
\<close>

lemma closed_family:
  assumes pwords: "\<forall>p\<in>set ps. isWord p" and wwords: "\<forall>w\<in>set ws. isWord w"
    and A: "\<And>pre m post. matches A pre m post \<longleftrightarrow>
              (\<exists>p\<in>set ps. \<exists>w. m = p @ w \<and> (\<forall>c\<in>set w. isWordChar c)) \<or> m \<in> set ws"
  shows "test (Seq Boundary (Seq A Boundary)) s
           \<longleftrightarrow> list_ex (\<lambda>p. containsToken p s) ps \<or> list_ex (\<lambda>w. containsWord w s) ws"
proof
  assume "test (Seq Boundary (Seq A Boundary)) s"
  then obtain pre m post where s: "s = pre @ m @ post"
    and M: "matches (Seq Boundary (Seq A Boundary)) pre m post"
    unfolding test_iff by blast
  from M have b1: "wordBefore pre \<noteq> wordAfter (m @ post)"
    and mA: "matches A pre m post"
    and b2: "wordBefore (pre @ m) \<noteq> wordAfter post"
    by auto
  from mA A consider p w where "p \<in> set ps" "m = p @ w" "\<forall>c\<in>set w. isWordChar c"
    | "m \<in> set ws" by blast
  then show "list_ex (\<lambda>p. containsToken p s) ps \<or> list_ex (\<lambda>w. containsWord w s) ws"
  proof cases
    case 1
    with pwords have "isWord p" by blast
    then have "wordAfter (p @ (w @ post))" by (rule wordAfter_word)
    with b1 1 have "\<not> wordBefore pre" by simp
    moreover from s 1 have "s = pre @ p @ (w @ post)" by simp
    ultimately have "containsToken p s" unfolding containsToken_iff by blast
    with 1 show ?thesis by (auto simp: list_ex_iff)
  next
    case 2
    with wwords have w: "isWord m" by blast
    from w have "wordAfter (m @ post)" by (rule wordAfter_word)
    with b1 have "\<not> wordBefore pre" by simp
    moreover from w have "wordBefore (pre @ m)" by (rule wordBefore_word)
    with b2 have "\<not> wordAfter post" by simp
    ultimately have "containsWord m s" unfolding containsWord_iff using s by blast
    with 2 show ?thesis by (auto simp: list_ex_iff)
  qed
next
  assume "list_ex (\<lambda>p. containsToken p s) ps \<or> list_ex (\<lambda>w. containsWord w s) ws"
  then consider p pre post where "p \<in> set ps" "s = pre @ p @ post" "\<not> wordBefore pre"
    | w pre post where "w \<in> set ws" "s = pre @ w @ post" "\<not> wordBefore pre" "\<not> wordAfter post"
    by (auto simp: list_ex_iff containsToken_iff containsWord_iff)
  then have "\<exists>pre m post. s = pre @ m @ post \<and> isWord m \<and> matches A pre m post
               \<and> \<not> wordBefore pre \<and> \<not> wordAfter post"
  proof cases
    case 1
    let ?w = "takeWhile isWordChar post" and ?post = "dropWhile isWordChar post"
    have ww: "\<forall>c\<in>set ?w. isWordChar c" by (auto dest: set_takeWhileD)
    from 1 pwords have "isWord p" by blast
    then have "isWord (p @ ?w)" using ww by (rule isWord_append_wordchars)
    moreover from 1 ww have "matches A pre (p @ ?w) ?post" unfolding A by blast
    moreover from 1 have "s = pre @ (p @ ?w) @ ?post" by simp
    moreover have "\<not> wordAfter ?post" by (rule not_wordAfter_dropWhile)
    ultimately show ?thesis using 1(3) by blast
  next
    case 2
    from 2 wwords have "isWord w" by blast
    moreover from 2 have "matches A pre w post" unfolding A by blast
    ultimately show ?thesis using 2 by blast
  qed
  then obtain pre m post where s: "s = pre @ m @ post" and w: "isWord m"
    and mA: "matches A pre m post" and nb: "\<not> wordBefore pre" and na: "\<not> wordAfter post"
    by blast
  from w have "wordAfter (m @ post)" "wordBefore (pre @ m)"
    by (rule wordAfter_word, rule wordBefore_word)
  with mA nb na have "matches (Seq Boundary (Seq A Boundary)) pre m post"
    by (auto intro!: exI [of _ "[]"] exI [of _ m])
  with s show "test (Seq Boundary (Seq A Boundary)) s" unfolding test_iff by blast
qed

lemma test_executingRe:
  "test executingRe s \<longleftrightarrow>
     list_ex (\<lambda>p. containsToken p s) executingPrefixes
     \<or> list_ex (\<lambda>w. containsWord w s) executingWords"
  unfolding executingRe_def seqs_def
  by (simp, rule closed_family [OF executingPrefixes_words executingWords_words])
     (auto simp: alts_def seqs_def lit_def executingPrefixes_def executingWords_def utf16_def)

lemma detectReasoningStage_tokens:
  "detectReasoningStage s =
     (if hasEvaluatingToken s then EVALUATING
      else if hasExecutingToken s then EXECUTING
      else if hasDecidingToken s then DECIDING
      else if hasPlanningToken s then PLANNING
      else ANALYZING)"
  by (simp add: detectReasoningStage_def Let_def test_evaluatingRe test_executingRe
      test_decidingRe test_planningRe hasEvaluatingToken_def hasExecutingToken_def
      hasDecidingToken_def hasPlanningToken_def)

subsection \<open>Evaluation on given texts\<close>

lemmas token_eval =
  hasEvaluatingToken_def hasExecutingToken_def hasDecidingToken_def hasPlanningToken_def
  evaluatingPrefixes_def executingPrefixes_def executingWords_def decidingPrefixes_def
  planningPrefixes_def
  containsToken_def containsWord_def wordAfter_def isWordChar_def
  toLowerCase_def lowerUnit_def utf16_def

lemmas spec_token_eval =
  hasSpecExecutingToken_def specExecutingPrefixes_def specExecutingWords_def
  containsToken_def containsWord_def wordAfter_def isWordChar_def
  toLowerCase_def lowerUnit_def utf16_def

subsection \<open>The priority cascade\<close>

text \<open>
  C1, as the specification states it, fails in its law for the Executing family, which
  the specification gives as \<open>execut*\<close>, \<open>implement*\<close>, \<open>writ(e|ing|ten)\<close>. The text
  "choose an implementation" has the token \<open>implementation\<close> of that family and below it
  a Deciding token only; it is classified Deciding, not Executing.
\<close>

theorem priority_cascade_counterexample:
  "hasSpecExecutingToken (utf16 ''choose an implementation'')
   \<and> hasDecidingToken (utf16 ''choose an implementation'')
   \<and> \<not> hasEvaluatingToken (utf16 ''choose an implementation'')
   \<and> detectReasoningStage (utf16 ''choose an implementation'') = DECIDING"
proof -
  have spec: "hasSpecExecutingToken (utf16 ''choose an implementation'')"
    by (simp add: spec_token_eval)
  have "\<not> hasEvaluatingToken (utf16 ''choose an implementation'')"
    and "\<not> hasExecutingToken (utf16 ''choose an implementation'')"
    and "hasDecidingToken (utf16 ''choose an implementation'')"
    by (simp_all add: token_eval)
  with spec show ?thesis by (simp add: detectReasoningStage_tokens)
qed

text \<open>
  C1, amended. The checks of the classifier form a priority cascade. A text with a token
  of the Evaluating family (\<open>evaluat*\<close>, \<open>validat*\<close>, \<open>verif*\<close>, \<open>check*\<close>) is classified
  Evaluating, whatever tokens of the lower families it has besides; a text with an
  Executing token and no Evaluating token is classified Executing; a text with a Deciding
  token and none of the two families above is classified Deciding; a text with a Planning
  token and none of the three families above is classified Planning. Here the Executing
  family is the words that begin with \<open>execut\<close> and the whole words \<open>implement\<close>,
  \<open>implementing\<close>, \<open>implemented\<close>, \<open>write\<close>, \<open>writing\<close>, \<open>written\<close>. In particular the
  text "I'm analyzing and evaluating this solution" is classified Evaluating.
\<close>

theorem priority_cascade:
  "(hasEvaluatingToken s \<longrightarrow> detectReasoningStage s = EVALUATING)
   \<and> (hasExecutingToken s \<and> \<not> hasEvaluatingToken s \<longrightarrow> detectReasoningStage s = EXECUTING)
   \<and> (hasDecidingToken s \<and> \<not> hasEvaluatingToken s \<and> \<not> hasExecutingToken s
        \<longrightarrow> detectReasoningStage s = DECIDING)
   \<and> (hasPlanningToken s \<and> \<not> hasEvaluatingToken s \<and> \<not> hasExecutingToken s
        \<and> \<not> hasDecidingToken s \<longrightarrow> detectReasoningStage s = PLANNING)
   \<and> detectReasoningStage (utf16 ''I'm analyzing and evaluating this solution'') = EVALUATING"
proof -
  have "hasEvaluatingToken (utf16 ''I'm analyzing and evaluating this solution'')"
    by (simp add: token_eval)
  then show ?thesis by (simp add: detectReasoningStage_tokens)
qed

theorem priority_cascade_witness:
  "hasEvaluatingToken (utf16 ''check the plan'') \<and> hasPlanningToken (utf16 ''check the plan'')
   \<and> detectReasoningStage (utf16 ''check the plan'') = EVALUATING
   \<and> hasExecutingToken (utf16 ''execute the plan'') \<and> hasPlanningToken (utf16 ''execute the plan'')
   \<and> \<not> hasEvaluatingToken (utf16 ''execute the plan'')
   \<and> detectReasoningStage (utf16 ''execute the plan'') = EXECUTING
   \<and> hasDecidingToken (utf16 ''choose a design'') \<and> hasPlanningToken (utf16 ''choose a design'')
   \<and> \<not> hasEvaluatingToken (utf16 ''choose a design'')
   \<and> \<not> hasExecutingToken (utf16 ''choose a design'')
   \<and> detectReasoningStage (utf16 ''choose a design'') = DECIDING
   \<and> hasPlanningToken (utf16 ''my approach'') \<and> \<not> hasEvaluatingToken (utf16 ''my approach'')
   \<and> \<not> hasExecutingToken (utf16 ''my approach'') \<and> \<not> hasDecidingToken (utf16 ''my approach'')
   \<and> detectReasoningStage (utf16 ''my approach'') = PLANNING"
proof -
  have 1: "hasEvaluatingToken (utf16 ''check the plan'')"
    and 2: "hasPlanningToken (utf16 ''check the plan'')"
    by (simp_all add: token_eval)
  have 3: "hasExecutingToken (utf16 ''execute the plan'')"
    and 4: "hasPlanningToken (utf16 ''execute the plan'')"
    and 5: "\<not> hasEvaluatingToken (utf16 ''execute the plan'')"
    by (simp_all add: token_eval)
  have 6: "hasDecidingToken (utf16 ''choose a design'')"
    and 7: "hasPlanningToken (utf16 ''choose a design'')"
    and 8: "\<not> hasEvaluatingToken (utf16 ''choose a design'')"
    and 9: "\<not> hasExecutingToken (utf16 ''choose a design'')"
    by (simp_all add: token_eval)
  have 10: "hasPlanningToken (utf16 ''my approach'')"
    and 11: "\<not> hasEvaluatingToken (utf16 ''my approach'')"
    and 12: "\<not> hasExecutingToken (utf16 ''my approach'')"
    and 13: "\<not> hasDecidingToken (utf16 ''my approach'')"
    by (simp_all add: token_eval)
  have a: "detectReasoningStage (utf16 ''check the plan'') = EVALUATING"
    using priority_cascade [of "utf16 ''check the plan''", THEN conjunct1] 1 by (rule mp)
  have b: "detectReasoningStage (utf16 ''execute the plan'') = EXECUTING"
    using priority_cascade [of "utf16 ''execute the plan''", THEN conjunct2, THEN conjunct1]
      conjI [OF 3 5]
    by (rule mp)
  have c: "detectReasoningStage (utf16 ''choose a design'') = DECIDING"
    using priority_cascade [of "utf16 ''choose a design''", THEN conjunct2, THEN conjunct2,
        THEN conjunct1]
      conjI [OF 6 conjI [OF 8 9]]
    by (rule mp)
  have d: "detectReasoningStage (utf16 ''my approach'') = PLANNING"
    using priority_cascade [of "utf16 ''my approach''", THEN conjunct2, THEN conjunct2,
        THEN conjunct2, THEN conjunct1]
      conjI [OF 10 conjI [OF 11 conjI [OF 12 13]]]
    by (rule mp)
  show ?thesis by (intro conjI; fact)
qed

subsection \<open>Totality and the default stage\<close>

lemma containsWord_containsToken:
  assumes "containsWord (p @ x) l"
  shows "containsToken p l"
proof -
  from assms obtain pre post where "l = pre @ (p @ x) @ post" and "\<not> wordBefore pre"
    unfolding containsWord_iff by blast
  then have "l = pre @ p @ (x @ post) \<and> \<not> wordBefore pre" by simp
  then show ?thesis unfolding containsToken_iff by blast
qed

lemma hasExecutingToken_spec:
  assumes "hasExecutingToken s"
  shows "hasSpecExecutingToken s"
proof -
  let ?l = "toLowerCase s"
  from assms consider "containsToken (utf16 ''execut'') ?l"
    | "containsWord (utf16 ''implement'' @ []) ?l"
    | "containsWord (utf16 ''implement'' @ utf16 ''ing'') ?l"
    | "containsWord (utf16 ''implement'' @ utf16 ''ed'') ?l"
    | "containsWord (utf16 ''writing'') ?l"
    | "containsWord (utf16 ''write'') ?l"
    | "containsWord (utf16 ''written'') ?l"
    by (auto simp: hasExecutingToken_def executingPrefixes_def executingWords_def utf16_def)
  then show ?thesis
  proof cases
    case 1
    then show ?thesis by (simp add: hasSpecExecutingToken_def specExecutingPrefixes_def)
  next
    case 2
    then have "containsToken (utf16 ''implement'') ?l" by (rule containsWord_containsToken)
    then show ?thesis by (simp add: hasSpecExecutingToken_def specExecutingPrefixes_def)
  next
    case 3
    then have "containsToken (utf16 ''implement'') ?l" by (rule containsWord_containsToken)
    then show ?thesis by (simp add: hasSpecExecutingToken_def specExecutingPrefixes_def)
  next
    case 4
    then have "containsToken (utf16 ''implement'') ?l" by (rule containsWord_containsToken)
    then show ?thesis by (simp add: hasSpecExecutingToken_def specExecutingPrefixes_def)
  next
    case 5
    then show ?thesis by (simp add: hasSpecExecutingToken_def specExecutingWords_def)
  next
    case 6
    then show ?thesis by (simp add: hasSpecExecutingToken_def specExecutingWords_def)
  next
    case 7
    then show ?thesis by (simp add: hasSpecExecutingToken_def specExecutingWords_def)
  qed
qed

text \<open>
  C6. The classifier is total and deterministic: on every string, the empty one and
  strings of arbitrary code units included, it answers one of the five stages, and the
  same stage on equal strings (the patterns carry no flag, so a test keeps no state). It
  answers Analyzing on the empty string and on every text in which no token of the four
  families is present, whether the Executing family is read as the classifier recognises
  it or, more widely, as the specification lists it.
\<close>

theorem classifier_total:
  "detectReasoningStage s \<in> {ANALYZING, PLANNING, DECIDING, EXECUTING, EVALUATING}
   \<and> (s = s' \<longrightarrow> detectReasoningStage s = detectReasoningStage s')
   \<and> detectReasoningStage [] = ANALYZING
   \<and> (\<not> hasEvaluatingToken s \<and> \<not> hasExecutingToken s \<and> \<not> hasDecidingToken s
        \<and> \<not> hasPlanningToken s \<longrightarrow> detectReasoningStage s = ANALYZING)
   \<and> (\<not> hasEvaluatingToken s \<and> \<not> hasSpecExecutingToken s \<and> \<not> hasDecidingToken s
        \<and> \<not> hasPlanningToken s \<longrightarrow> detectReasoningStage s = ANALYZING)"
proof -
  have "detectReasoningStage s \<in> {ANALYZING, PLANNING, DECIDING, EXECUTING, EVALUATING}"
    by (cases "detectReasoningStage s") simp_all
  moreover have "detectReasoningStage [] = ANALYZING"
    by (simp add: detectReasoningStage_tokens token_eval)
  moreover have "\<not> hasSpecExecutingToken s \<longrightarrow> \<not> hasExecutingToken s"
    using hasExecutingToken_spec [of s] by blast
  ultimately show ?thesis by (simp add: detectReasoningStage_tokens)
qed

theorem classifier_total_witness:
  "\<not> hasEvaluatingToken (utf16 ''The user wants something'')
   \<and> \<not> hasExecutingToken (utf16 ''The user wants something'')
   \<and> \<not> hasDecidingToken (utf16 ''The user wants something'')
   \<and> \<not> hasPlanningToken (utf16 ''The user wants something'')
   \<and> detectReasoningStage (utf16 ''The user wants something'') = ANALYZING
   \<and> detectReasoningStage [31169, 12399, 55357, 56489] = ANALYZING"
proof -
  have 1: "\<not> hasEvaluatingToken (utf16 ''The user wants something'')"
    and 2: "\<not> hasExecutingToken (utf16 ''The user wants something'')"
    and 3: "\<not> hasDecidingToken (utf16 ''The user wants something'')"
    and 4: "\<not> hasPlanningToken (utf16 ''The user wants something'')"
    by (simp_all add: token_eval)
  have 5: "\<not> hasEvaluatingToken [31169, 12399, 55357, 56489]"
    and 6: "\<not> hasExecutingToken [31169, 12399, 55357, 56489]"
    and 7: "\<not> hasDecidingToken [31169, 12399, 55357, 56489]"
    and 8: "\<not> hasPlanningToken [31169, 12399, 55357, 56489]"
    by (simp_all add: token_eval)
  have a: "detectReasoningStage (utf16 ''The user wants something'') = ANALYZING"
    using classifier_total [of "utf16 ''The user wants something''", THEN conjunct2,
        THEN conjunct2, THEN conjunct2, THEN conjunct1]
      conjI [OF 1 conjI [OF 2 conjI [OF 3 4]]]
    by (rule mp)
  have b: "detectReasoningStage [31169, 12399, 55357, 56489] = ANALYZING"
    using classifier_total [of "[31169, 12399, 55357, 56489]", THEN conjunct2,
        THEN conjunct2, THEN conjunct2, THEN conjunct1]
      conjI [OF 5 conjI [OF 6 conjI [OF 7 8]]]
    by (rule mp)
  show ?thesis by (intro conjI; fact)
qed

subsection \<open>The Executing family\<close>

text \<open>
  C7, as the specification states it, fails: a text with a word \<open>implement*\<close> beyond
  \<open>implement\<close>, \<open>implementing\<close> and \<open>implemented\<close> is not classified Executing. The text
  "I'll plan out the implementation steps" has the token \<open>implementation\<close> and no
  Evaluating token, and is classified Planning.
\<close>

theorem executing_family_counterexample:
  "hasSpecExecutingToken (utf16 ''I'll plan out the implementation steps'')
   \<and> \<not> hasEvaluatingToken (utf16 ''I'll plan out the implementation steps'')
   \<and> detectReasoningStage (utf16 ''I'll plan out the implementation steps'') = PLANNING"
proof -
  have spec: "hasSpecExecutingToken (utf16 ''I'll plan out the implementation steps'')"
    by (simp add: spec_token_eval)
  have "\<not> hasEvaluatingToken (utf16 ''I'll plan out the implementation steps'')"
    and "\<not> hasExecutingToken (utf16 ''I'll plan out the implementation steps'')"
    and "\<not> hasDecidingToken (utf16 ''I'll plan out the implementation steps'')"
    and "hasPlanningToken (utf16 ''I'll plan out the implementation steps'')"
    by (simp_all add: token_eval)
  with spec show ?thesis by (simp add: detectReasoningStage_tokens)
qed

text \<open>
  C7, amended. A text with no Evaluating token is classified Executing exactly when its
  lower-cased form has a word that begins with \<open>execut\<close>, or one of the whole words
  \<open>implement\<close>, \<open>implementing\<close>, \<open>implemented\<close>, \<open>write\<close>, \<open>writing\<close>, \<open>written\<close>.
\<close>

theorem executing_family_coverage:
  assumes "\<not> hasEvaluatingToken s"
  shows "detectReasoningStage s = EXECUTING \<longleftrightarrow>
           containsToken (utf16 ''execut'') (toLowerCase s)
           \<or> containsWord (utf16 ''implement'') (toLowerCase s)
           \<or> containsWord (utf16 ''implementing'') (toLowerCase s)
           \<or> containsWord (utf16 ''implemented'') (toLowerCase s)
           \<or> containsWord (utf16 ''write'') (toLowerCase s)
           \<or> containsWord (utf16 ''writing'') (toLowerCase s)
           \<or> containsWord (utf16 ''written'') (toLowerCase s)"
proof -
  have "hasExecutingToken s \<longleftrightarrow>
           containsToken (utf16 ''execut'') (toLowerCase s)
           \<or> containsWord (utf16 ''implement'') (toLowerCase s)
           \<or> containsWord (utf16 ''implementing'') (toLowerCase s)
           \<or> containsWord (utf16 ''implemented'') (toLowerCase s)
           \<or> containsWord (utf16 ''write'') (toLowerCase s)
           \<or> containsWord (utf16 ''writing'') (toLowerCase s)
           \<or> containsWord (utf16 ''written'') (toLowerCase s)"
    unfolding hasExecutingToken_def executingPrefixes_def executingWords_def
    by (simp only: list.map list_ex_Nil_iff list_ex_Cons_iff) blast
  with assms show ?thesis by (simp add: detectReasoningStage_tokens)
qed

theorem executing_family_coverage_witness:
  "\<not> hasEvaluatingToken (utf16 ''I'm writing the code now'')
   \<and> containsWord (utf16 ''writing'') (toLowerCase (utf16 ''I'm writing the code now''))
   \<and> detectReasoningStage (utf16 ''I'm writing the code now'') = EXECUTING"
proof -
  have 1: "\<not> hasEvaluatingToken (utf16 ''I'm writing the code now'')"
    and 2: "containsWord (utf16 ''writing'') (toLowerCase (utf16 ''I'm writing the code now''))"
    by (simp_all add: token_eval)
  from 2 have "detectReasoningStage (utf16 ''I'm writing the code now'') = EXECUTING"
    unfolding executing_family_coverage [OF 1] by simp
  with 1 2 show ?thesis by (intro conjI)
qed

subsection \<open>Appending to a classified text\<close>

lemma toLowerCase_append: "toLowerCase (s @ t) = toLowerCase s @ toLowerCase t"
  by (simp add: toLowerCase_def)

lemma containsToken_append: "containsToken p l \<Longrightarrow> containsToken p (l @ t)"
  unfolding containsToken_iff by (metis append.assoc)

lemma wordAfter_append: "post \<noteq> [] \<Longrightarrow> wordAfter (post @ t) = wordAfter post"
  by (simp add: wordAfter_def)

lemma containsWord_append:
  assumes w: "isWord w" and c: "containsWord w l" and j: "\<not> (wordBefore l \<and> wordAfter t)"
  shows "containsWord w (l @ t)"
proof -
  from c obtain pre post where l: "l = pre @ w @ post" and nb: "\<not> wordBefore pre"
    and na: "\<not> wordAfter post"
    unfolding containsWord_iff by blast
  have "\<not> wordAfter (post @ t)"
  proof (cases "post = []")
    case True
    with l w have "wordBefore l" using wordBefore_word [of w pre] by simp
    with j True show ?thesis by simp
  next
    case False
    with na show ?thesis by (simp add: wordAfter_append)
  qed
  moreover from l have "l @ t = pre @ w @ (post @ t)" by simp
  ultimately show ?thesis unfolding containsWord_iff using nb by blast
qed

lemma hasEvaluatingToken_append: "hasEvaluatingToken s \<Longrightarrow> hasEvaluatingToken (s @ t)"
  by (auto simp: hasEvaluatingToken_def list_ex_iff toLowerCase_append
      intro: containsToken_append)

lemma hasDecidingToken_append: "hasDecidingToken s \<Longrightarrow> hasDecidingToken (s @ t)"
  by (auto simp: hasDecidingToken_def list_ex_iff toLowerCase_append
      intro: containsToken_append)

lemma hasPlanningToken_append: "hasPlanningToken s \<Longrightarrow> hasPlanningToken (s @ t)"
  by (auto simp: hasPlanningToken_def list_ex_iff toLowerCase_append
      intro: containsToken_append)

lemma hasExecutingToken_append:
  assumes "hasExecutingToken s"
    and "\<not> (wordBefore (toLowerCase s) \<and> wordAfter (toLowerCase t))"
  shows "hasExecutingToken (s @ t)"
proof -
  from assms(1) consider p where "p \<in> set executingPrefixes" "containsToken p (toLowerCase s)"
    | w where "w \<in> set executingWords" "containsWord w (toLowerCase s)"
    by (auto simp: hasExecutingToken_def list_ex_iff)
  then show ?thesis
  proof cases
    case 1
    from 1(2) have "containsToken p (toLowerCase s @ toLowerCase t)"
      by (rule containsToken_append)
    with 1(1) show ?thesis
      by (auto simp: hasExecutingToken_def list_ex_iff toLowerCase_append)
  next
    case 2
    from 2(1) executingWords_words have "isWord w" by blast
    then have "containsWord w (toLowerCase s @ toLowerCase t)"
      using 2(2) assms(2) by (rule containsWord_append)
    with 2(1) show ?thesis
      by (auto simp: hasExecutingToken_def list_ex_iff toLowerCase_append)
  qed
qed

lemma stage_has_token:
  "detectReasoningStage s \<noteq> ANALYZING \<Longrightarrow> hasTokenOf (detectReasoningStage s) s"
  by (simp add: detectReasoningStage_tokens split: if_splits)

lemma higher_has_no_token:
  "priority (detectReasoningStage s) < priority x \<Longrightarrow> \<not> hasTokenOf x s"
  by (cases x) (simp_all add: detectReasoningStage_tokens split: if_splits)

lemma priority_inj: "priority x = priority y \<Longrightarrow> x = y"
  by (cases x; cases y) simp_all

lemma append_never_lowers:
  assumes "detectReasoningStage s \<noteq> EXECUTING
           \<or> \<not> (wordBefore (toLowerCase s) \<and> wordAfter (toLowerCase t))"
  shows "priority (detectReasoningStage s) \<le> priority (detectReasoningStage (s @ t))"
proof (cases "detectReasoningStage s")
  case ANALYZING
  then show ?thesis by simp
next
  case PLANNING
  then have "hasPlanningToken s" by (simp add: detectReasoningStage_tokens split: if_splits)
  then have "hasPlanningToken (s @ t)" by (rule hasPlanningToken_append)
  with PLANNING show ?thesis by (simp add: detectReasoningStage_tokens [of "s @ t"])
next
  case DECIDING
  then have "hasDecidingToken s" by (simp add: detectReasoningStage_tokens split: if_splits)
  then have "hasDecidingToken (s @ t)" by (rule hasDecidingToken_append)
  with DECIDING show ?thesis by (simp add: detectReasoningStage_tokens [of "s @ t"])
next
  case EXECUTING
  then have "hasExecutingToken s" by (simp add: detectReasoningStage_tokens split: if_splits)
  moreover from EXECUTING assms
  have "\<not> (wordBefore (toLowerCase s) \<and> wordAfter (toLowerCase t))" by simp
  ultimately have "hasExecutingToken (s @ t)" by (rule hasExecutingToken_append)
  with EXECUTING show ?thesis by (simp add: detectReasoningStage_tokens [of "s @ t"])
next
  case EVALUATING
  then have "hasEvaluatingToken s" by (simp add: detectReasoningStage_tokens split: if_splits)
  then have "hasEvaluatingToken (s @ t)" by (rule hasEvaluatingToken_append)
  with EVALUATING show ?thesis by (simp add: detectReasoningStage_tokens [of "s @ t"])
qed

lemma wordThenBreak_iff:
  "wordThenBreak w rest \<longleftrightarrow> (\<exists>post. rest = w @ post \<and> post \<noteq> [] \<and> \<not> wordAfter post)"
  by (induction w rest rule: wordThenBreak.induct) auto

lemma containsInnerWord_iff:
  "containsInnerWord w s \<longleftrightarrow>
     (\<exists>pre post. s = pre @ w @ post \<and> \<not> wordBefore pre \<and> post \<noteq> [] \<and> \<not> wordAfter post)"
proof -
  have "innerWordFrom b w rest \<longleftrightarrow>
          (\<exists>a r. rest = a @ r \<and> wordThenBreak w r \<and> \<not> (if a = [] then b else isWordChar (last a)))"
    for b rest
    by (rule from_iff) auto
  then show ?thesis
    by (simp add: containsInnerWord_def wordThenBreak_iff wordBefore_def) blast
qed

lemma isWord_hd: "isWord q \<Longrightarrow> isWordChar (hd q)"
  by (cases q) (auto simp: isWord_def)

lemma isWord_last: "isWord q \<Longrightarrow> isWordChar (last q)"
  by (auto simp: isWord_def)

lemma isWord_prefix: "isWord (x @ y) \<Longrightarrow> x \<noteq> [] \<Longrightarrow> isWord x"
  by (auto simp: isWord_def)

lemma isWord_suffix: "isWord (x @ y) \<Longrightarrow> y \<noteq> [] \<Longrightarrow> isWord y"
  by (auto simp: isWord_def)

lemma token_at_join:
  assumes L: "A @ q @ B = P @ J @ R"
    and P: "\<not> wordBefore P" and J: "isWord J" and R: "\<not> wordAfter R"
    and A: "\<not> wordBefore A" and q: "isWord q"
  shows "(\<exists>B'. B' \<noteq> [] \<and> P = A @ q @ B' \<and> B = B' @ J @ R)
       \<or> (A = P \<and> (\<exists>x. J = q @ x \<and> B = x @ R))
       \<or> (\<exists>a. a \<noteq> [] \<and> A = P @ J @ a \<and> R = a @ q @ B)"
proof -
  from L obtain us where
    "A = P @ us \<and> us @ q @ B = J @ R \<or> A @ us = P \<and> q @ B = us @ J @ R"
    using append_eq_append_conv2 [of A "q @ B" P "J @ R"] by blast
  then consider (right) us where "A = P @ us" "us @ q @ B = J @ R"
    | (left) us where "us \<noteq> []" "A @ us = P" "q @ B = us @ J @ R"
    by (cases "us = []") auto
  then show ?thesis
  proof cases
    case right
    show ?thesis
    proof (cases "us = []")
      case True
      with right have AP: "A = P" and e: "q @ B = J @ R" by simp_all
      from e obtain vs where "q = J @ vs \<and> vs @ B = R \<or> q @ vs = J \<and> B = vs @ R"
        using append_eq_append_conv2 [of q B J R] by blast
      then show ?thesis
      proof
        assume h: "q = J @ vs \<and> vs @ B = R"
        have "vs = []"
        proof (rule ccontr)
          assume n: "vs \<noteq> []"
          with q h have "isWord vs" using isWord_suffix [of J vs] by simp
          then have "wordAfter (vs @ B)" by (rule wordAfter_word)
          with h R show False by simp
        qed
        with h AP show ?thesis by simp
      next
        assume "q @ vs = J \<and> B = vs @ R"
        with AP show ?thesis by auto
      qed
    next
      case False
      from right(2) obtain vs where
        "us = J @ vs \<and> vs @ q @ B = R \<or> us @ vs = J \<and> q @ B = vs @ R"
        using append_eq_append_conv2 [of us "q @ B" J R] by blast
      then show ?thesis
      proof
        assume h: "us = J @ vs \<and> vs @ q @ B = R"
        have "vs \<noteq> []"
        proof
          assume "vs = []"
          with h right(1) have "A = P @ J" by simp
          with J have "wordBefore A" by (simp add: wordBefore_word)
          with A show False by simp
        qed
        with h right(1) show ?thesis by auto
      next
        assume h: "us @ vs = J \<and> q @ B = vs @ R"
        with J False have "isWord us" using isWord_prefix [of us vs] by simp
        then have "wordBefore (P @ us)" by (rule wordBefore_word)
        with right(1) A show ?thesis by simp
      qed
    qed
  next
    case left
    from left(3) obtain vs where
      "q = us @ vs \<and> vs @ B = J @ R \<or> q @ vs = us \<and> B = vs @ J @ R"
      using append_eq_append_conv2 [of q B us "J @ R"] by blast
    then show ?thesis
    proof
      assume h: "q = us @ vs \<and> vs @ B = J @ R"
      with q left(1) have "isWord us" using isWord_prefix [of us vs] by simp
      then have "wordBefore (A @ us)" by (rule wordBefore_word)
      with left(2) P show ?thesis by simp
    next
      assume h: "q @ vs = us \<and> B = vs @ J @ R"
      have "vs \<noteq> []"
      proof
        assume "vs = []"
        with h left(2) have "P = A @ q" by auto
        with q have "wordBefore P" by (simp add: wordBefore_word)
        with P show False by simp
      qed
      with h left(2) show ?thesis by auto
    qed
  qed
qed

lemma lastWord_closed:
  assumes "isWord w" and "\<not> wordBefore pre"
  shows "lastWord (pre @ w) = w"
proof -
  have all: "\<forall>c\<in>set (rev w). isWordChar c" using assms(1) by (simp add: isWord_def)
  have "takeWhile isWordChar (rev w @ rev pre) = rev w"
  proof (cases "pre = []")
    case True
    with all show ?thesis by simp
  next
    case False
    with assms(2) have "\<not> isWordChar (hd (rev pre))"
      by (simp add: wordBefore_def hd_rev)
    with False all show ?thesis
      by (cases "rev pre") (simp_all add: takeWhile_append2 takeWhile_append)
  qed
  then show ?thesis by (simp add: lastWord_def)
qed

lemma takeWhile_wordchars: "\<forall>c\<in>set (takeWhile isWordChar m). isWordChar c"
  by (auto dest: set_takeWhileD)

lemma takeWhile_word: "wordAfter m \<Longrightarrow> isWord (takeWhile isWordChar m)"
  by (cases m) (auto simp: wordAfter_def isWord_def dest: set_takeWhileD)


lemma lastWord_split:
  "\<exists>P. l = P @ lastWord l \<and> \<not> wordBefore P \<and> (\<forall>c\<in>set (lastWord l). isWordChar c)"
proof -
  let ?P = "rev (dropWhile isWordChar (rev l))"
  have 1: "l = ?P @ lastWord l"
    unfolding lastWord_def by (metis rev_append rev_rev_ident takeWhile_dropWhile_id)
  have 2: "\<not> wordBefore ?P"
    using hd_dropWhile [of isWordChar "rev l"] by (auto simp: wordBefore_def last_rev)
  have 3: "\<forall>c\<in>set (lastWord l). isWordChar c"
    by (auto simp: lastWord_def dest: set_takeWhileD)
  from 1 2 3 show ?thesis by blast
qed

lemma not_wordBefore_append: "a \<noteq> [] \<Longrightarrow> \<not> wordBefore a \<Longrightarrow> \<not> wordBefore (x @ a)"
  by (simp add: wordBefore_def)

lemma not_wordAfter_append: "b \<noteq> [] \<Longrightarrow> \<not> wordAfter b \<Longrightarrow> \<not> wordAfter (b @ x)"
  by (simp add: wordAfter_def)

text \<open>A token of the lower-cased text that lies before the end of a word survives.\<close>

lemma containsInnerWord_append:
  assumes "containsInnerWord w l"
  shows "containsWord w (l @ m)"
proof -
  from assms obtain pre post where l: "l = pre @ w @ post" and nb: "\<not> wordBefore pre"
    and ne: "post \<noteq> []" and na: "\<not> wordAfter post"
    unfolding containsInnerWord_iff by blast
  from ne na have "\<not> wordAfter (post @ m)" by (rule not_wordAfter_append)
  moreover from l have "l @ m = pre @ w @ (post @ m)" by simp
  ultimately show ?thesis unfolding containsWord_iff using nb by blast
qed

lemma stable_survives:
  assumes "hasStableExecutingToken s"
  shows "hasExecutingToken (s @ t)"
proof -
  from assms consider p where "p \<in> set executingPrefixes" "containsToken p (toLowerCase s)"
    | w where "w \<in> set executingWords" "containsInnerWord w (toLowerCase s)"
    by (auto simp: hasStableExecutingToken_def list_ex_iff)
  then show ?thesis
  proof cases
    case 1
    from 1(2) have "containsToken p (toLowerCase s @ toLowerCase t)"
      by (rule containsToken_append)
    with 1(1) show ?thesis
      by (auto simp: hasExecutingToken_def list_ex_iff toLowerCase_append)
  next
    case 2
    from 2(2) have "containsWord w (toLowerCase s @ toLowerCase t)"
      by (rule containsInnerWord_append)
    with 2(1) show ?thesis
      by (auto simp: hasExecutingToken_def list_ex_iff toLowerCase_append)
  qed
qed

text \<open>The word formed at the join is a whole word of the joined text.\<close>

lemma joined_survives:
  assumes "joinedWord s t \<in> set executingWords"
  shows "hasExecutingToken (s @ t)"
proof -
  let ?l = "toLowerCase s" and ?m = "toLowerCase t"
  obtain P where l: "?l = P @ lastWord ?l" and nb: "\<not> wordBefore P"
    using lastWord_split [of ?l] by blast
  have m: "?m = takeWhile isWordChar ?m @ dropWhile isWordChar ?m" by simp
  have "?l @ ?m = P @ lastWord ?l @ takeWhile isWordChar ?m @ dropWhile isWordChar ?m"
    using l m by (metis append.assoc)
  then have "?l @ ?m = P @ joinedWord s t @ dropWhile isWordChar ?m"
    by (simp add: joinedWord_def)
  with nb not_wordAfter_dropWhile [of ?m] have "containsWord (joinedWord s t) (?l @ ?m)"
    unfolding containsWord_iff by blast
  with assms show ?thesis
    by (auto simp: hasExecutingToken_def list_ex_iff toLowerCase_append)
qed

text \<open>A token of the rest of the fragment is a token of the joined text.\<close>

lemma rest_token:
  assumes p: "isWord p" and c: "containsToken p (dropWhile isWordChar m)"
  shows "containsToken p (l @ m)"
proof -
  from c obtain a b where r: "dropWhile isWordChar m = a @ p @ b" and nb: "\<not> wordBefore a"
    unfolding containsToken_iff by blast
  have "a \<noteq> []"
  proof
    assume "a = []"
    with r have "dropWhile isWordChar m = p @ b" by simp
    with wordAfter_word [OF p, of b] not_wordAfter_dropWhile [of m] show False by simp
  qed
  then have "\<not> wordBefore ((l @ takeWhile isWordChar m) @ a)"
    using nb by (rule not_wordBefore_append)
  moreover have "l @ m = ((l @ takeWhile isWordChar m) @ a) @ p @ b"
    using r by (metis append.assoc takeWhile_dropWhile_id)
  ultimately show ?thesis unfolding containsToken_iff by blast
qed

lemma rest_word:
  assumes p: "isWord p" and c: "containsWord p (dropWhile isWordChar m)"
  shows "containsWord p (l @ m)"
proof -
  from c obtain a b where r: "dropWhile isWordChar m = a @ p @ b" and nb: "\<not> wordBefore a"
    and na: "\<not> wordAfter b"
    unfolding containsWord_iff by blast
  have "a \<noteq> []"
  proof
    assume "a = []"
    with r have "dropWhile isWordChar m = p @ b" by simp
    with wordAfter_word [OF p, of b] not_wordAfter_dropWhile [of m] show False by simp
  qed
  then have "\<not> wordBefore ((l @ takeWhile isWordChar m) @ a)"
    using nb by (rule not_wordBefore_append)
  moreover have "l @ m = ((l @ takeWhile isWordChar m) @ a) @ p @ b"
    using r by (metis append.assoc takeWhile_dropWhile_id)
  ultimately show ?thesis unfolding containsWord_iff using na by blast
qed

lemma rest_survives:
  assumes "restHasToken t"
  shows "hasEvaluatingToken (s @ t) \<or> hasExecutingToken (s @ t)"
proof -
  from assms consider
    p where "p \<in> set evaluatingPrefixes" "containsToken p (restOf t)"
    | p where "p \<in> set executingPrefixes" "containsToken p (restOf t)"
    | w where "w \<in> set executingWords" "containsWord w (restOf t)"
    by (auto simp: restHasToken_def list_ex_iff)
  then show ?thesis
  proof cases
    case 1
    from 1(1) evaluatingPrefixes_words have "isWord p" by blast
    then have "containsToken p (toLowerCase s @ toLowerCase t)"
      using 1(2) unfolding restOf_def by (rule rest_token)
    with 1(1) show ?thesis
      by (auto simp: hasEvaluatingToken_def list_ex_iff toLowerCase_append)
  next
    case 2
    from 2(1) executingPrefixes_words have "isWord p" by blast
    then have "containsToken p (toLowerCase s @ toLowerCase t)"
      using 2(2) unfolding restOf_def by (rule rest_token)
    with 2(1) show ?thesis
      by (auto simp: hasExecutingToken_def list_ex_iff toLowerCase_append)
  next
    case 3
    from 3(1) executingWords_words have "isWord w" by blast
    then have "containsWord w (toLowerCase s @ toLowerCase t)"
      using 3(2) unfolding restOf_def by (rule rest_word)
    with 3(1) show ?thesis
      by (auto simp: hasExecutingToken_def list_ex_iff toLowerCase_append)
  qed
qed

text \<open>
  No prefix of the Evaluating or Executing family begins with the unit that a closed
  Executing word begins with.
\<close>

lemma closed_word_heads:
  "\<forall>p\<in>set (evaluatingPrefixes @ executingPrefixes). \<forall>w\<in>set executingWords. hd p \<noteq> hd w"
  by (simp add: evaluatingPrefixes_def executingPrefixes_def executingWords_def utf16_def)

text \<open>
  A text classified Executing without a stable Executing token ends in a closed Executing
  word.
\<close>

lemma unstable_ends_in_word:
  assumes e: "hasExecutingToken s" and n: "\<not> hasStableExecutingToken s"
  shows "\<exists>pre w. toLowerCase s = pre @ w \<and> w \<in> set executingWords \<and> \<not> wordBefore pre"
proof -
  from e n obtain w where w: "w \<in> set executingWords" and c: "containsWord w (toLowerCase s)"
    by (auto simp: hasExecutingToken_def hasStableExecutingToken_def list_ex_iff)
  from c obtain pre post where l: "toLowerCase s = pre @ w @ post" and nb: "\<not> wordBefore pre"
    and na: "\<not> wordAfter post"
    unfolding containsWord_iff by blast
  have "post = []"
  proof (rule ccontr)
    assume "post \<noteq> []"
    with l nb na have "containsInnerWord w (toLowerCase s)"
      unfolding containsInnerWord_iff by blast
    with w n show False by (auto simp: hasStableExecutingToken_def list_ex_iff)
  qed
  with l w nb show ?thesis by auto
qed

lemma join_loses:
  assumes ev: "\<not> hasEvaluatingToken s" and ex: "hasExecutingToken s"
    and j: "joinLosesToken s t"
  shows "\<not> hasEvaluatingToken (s @ t) \<and> \<not> hasExecutingToken (s @ t)"
proof -
  let ?l = "toLowerCase s" and ?m = "toLowerCase t"
  let ?u = "takeWhile isWordChar ?m" and ?r = "dropWhile isWordChar ?m"
  from j have ns: "\<not> hasStableExecutingToken s" and wa: "wordAfter ?m"
    and nj: "joinedWord s t \<notin> set executingWords" and nr: "\<not> restHasToken t"
    by (simp_all add: joinLosesToken_def)
  from ex ns obtain pre w where l: "?l = pre @ w" and w: "w \<in> set executingWords"
    and nb: "\<not> wordBefore pre"
    using unstable_ends_in_word by blast
  from w executingWords_words have ww: "isWord w" by blast
  then have lw: "lastWord ?l = w" using nb unfolding l by (rule lastWord_closed)
  let ?J = "w @ ?u"
  have J: "joinedWord s t = ?J" by (simp add: joinedWord_def lw)
  have wJ: "isWord ?J" using ww takeWhile_wordchars by (rule isWord_append_wordchars)
  have nR: "\<not> wordAfter ?r" by (rule not_wordAfter_dropWhile)
  have L: "?l @ ?m = pre @ ?J @ ?r" by (simp add: l)
  have prefix: "\<not> containsToken p (?l @ ?m)"
    if p: "p \<in> set (evaluatingPrefixes @ executingPrefixes)" for p
  proof
    assume "containsToken p (?l @ ?m)"
    then obtain A B where e: "?l @ ?m = A @ p @ B" and nA: "\<not> wordBefore A"
      unfolding containsToken_iff by blast
    from p evaluatingPrefixes_words executingPrefixes_words have wp: "isWord p" by auto
    from e L have "A @ p @ B = pre @ ?J @ ?r" by simp
    from token_at_join [OF this nb wJ nR nA wp]
    consider (a) B' where "B' \<noteq> []" "pre = A @ p @ B'"
      | (b) x where "?J = p @ x"
      | (c) a where "a \<noteq> []" "A = pre @ ?J @ a" "?r = a @ p @ B"
      by blast
    then show False
    proof cases
      case a
      then have "?l = A @ p @ (B' @ w)" by (simp add: l)
      with nA have "containsToken p ?l" unfolding containsToken_iff by blast
      with p ev ns show False
        by (auto simp: hasEvaluatingToken_def hasStableExecutingToken_def list_ex_iff)
    next
      case b
      from ww wp have "w \<noteq> []" "p \<noteq> []" by (auto simp: isWord_def)
      with b have "hd w = hd p" by (metis hd_append2)
      with p w closed_word_heads show False by metis
    next
      case c
      from c(1,2) nA have "\<not> wordBefore a" by (simp add: wordBefore_def)
      with c(3) have "containsToken p ?r" unfolding containsToken_iff by blast
      with p nr show False by (auto simp: restHasToken_def restOf_def list_ex_iff)
    qed
  qed
  have word: "\<not> containsWord q (?l @ ?m)" if q: "q \<in> set executingWords" for q
  proof
    assume "containsWord q (?l @ ?m)"
    then obtain A B where e: "?l @ ?m = A @ q @ B" and nA: "\<not> wordBefore A"
      and nB: "\<not> wordAfter B"
      unfolding containsWord_iff by blast
    from q executingWords_words have wq: "isWord q" by blast
    from e L have "A @ q @ B = pre @ ?J @ ?r" by simp
    from token_at_join [OF this nb wJ nR nA wq]
    consider (a) B' where "B' \<noteq> []" "pre = A @ q @ B'" "B = B' @ ?J @ ?r"
      | (b) x where "?J = q @ x" "B = x @ ?r"
      | (c) a where "a \<noteq> []" "A = pre @ ?J @ a" "?r = a @ q @ B"
      by blast
    then show False
    proof cases
      case a
      from a(1,3) nB have "\<not> wordAfter B'" by (simp add: wordAfter_def)
      moreover from a(2) have "?l = A @ q @ (B' @ w)" by (simp add: l)
      moreover from a(1) nB a(3) have "\<not> wordAfter (B' @ w)" by (simp add: wordAfter_def)
      ultimately have "containsInnerWord q ?l"
        unfolding containsInnerWord_iff using nA a(1) by blast
      with q ns show False by (auto simp: hasStableExecutingToken_def list_ex_iff)
    next
      case b
      have "x = []"
      proof (rule ccontr)
        assume "x \<noteq> []"
        with wJ b(1) have "isWord x" using isWord_suffix [of q x] by simp
        then have "wordAfter (x @ ?r)" by (rule wordAfter_word)
        with b(2) nB show False by simp
      qed
      with b(1) J have "joinedWord s t = q" by simp
      with q nj show False by simp
    next
      case c
      from c(1,2) nA have "\<not> wordBefore a" by (simp add: wordBefore_def)
      with c(3) nB have "containsWord q ?r" unfolding containsWord_iff by blast
      with q nr show False by (auto simp: restHasToken_def restOf_def list_ex_iff)
    qed
  qed
  from prefix word show ?thesis
    by (auto simp: hasEvaluatingToken_def hasExecutingToken_def list_ex_iff toLowerCase_append)
qed

lemma priority_below_executing:
  "priority (detectReasoningStage x) < 3 \<longleftrightarrow> \<not> hasEvaluatingToken x \<and> \<not> hasExecutingToken x"
  by (simp add: detectReasoningStage_tokens)

lemma lowers_iff:
  "priority (detectReasoningStage (s @ t)) < priority (detectReasoningStage s)
     \<longleftrightarrow> detectReasoningStage s = EXECUTING \<and> joinLosesToken s t"
proof
  assume lt: "priority (detectReasoningStage (s @ t)) < priority (detectReasoningStage s)"
  have E: "detectReasoningStage s = EXECUTING"
  proof (rule ccontr)
    assume "detectReasoningStage s \<noteq> EXECUTING"
    then have "priority (detectReasoningStage s) \<le> priority (detectReasoningStage (s @ t))"
      using append_never_lowers [of s t] by blast
    with lt show False by simp
  qed
  with lt have "priority (detectReasoningStage (s @ t)) < 3" by simp
  then have none: "\<not> hasEvaluatingToken (s @ t)" "\<not> hasExecutingToken (s @ t)"
    by (simp_all add: priority_below_executing)
  from E have ex: "hasExecutingToken s"
    by (simp add: detectReasoningStage_tokens split: if_splits)
  from none(2) have 1: "\<not> hasStableExecutingToken s" using stable_survives by blast
  have 2: "wordAfter (toLowerCase t)"
  proof (rule ccontr)
    assume "\<not> wordAfter (toLowerCase t)"
    then have "\<not> (wordBefore (toLowerCase s) \<and> wordAfter (toLowerCase t))" by simp
    with ex have "hasExecutingToken (s @ t)" by (rule hasExecutingToken_append)
    with none(2) show False by simp
  qed
  from none(2) have 3: "joinedWord s t \<notin> set executingWords" using joined_survives by blast
  from none have 4: "\<not> restHasToken t" using rest_survives by blast
  from E 1 2 3 4 show "detectReasoningStage s = EXECUTING \<and> joinLosesToken s t"
    by (simp add: joinLosesToken_def)
next
  assume h: "detectReasoningStage s = EXECUTING \<and> joinLosesToken s t"
  then have ev: "\<not> hasEvaluatingToken s" and ex: "hasExecutingToken s"
    by (simp_all add: detectReasoningStage_tokens split: if_splits)
  from ev ex h have "\<not> hasEvaluatingToken (s @ t) \<and> \<not> hasExecutingToken (s @ t)"
    using join_loses by blast
  then have "priority (detectReasoningStage (s @ t)) < 3"
    by (simp add: priority_below_executing)
  with h show "priority (detectReasoningStage (s @ t)) < priority (detectReasoningStage s)"
    by simp
qed

lemmas join_eval =
  joinLosesToken_def hasStableExecutingToken_def containsInnerWord_def joinedWord_def
  lastWord_def restHasToken_def restOf_def

text \<open>
  C8, as the specification states it, fails: appending text without a keyword can move
  the classification to a stage of lower priority. \<open>write\<close> is classified Executing; the
  fragment \<open>r\<close> has no token of any family; \<open>writer\<close> has none either and is classified
  Analyzing.
\<close>

theorem append_stability_counterexample:
  "detectReasoningStage (utf16 ''write'') = EXECUTING
   \<and> \<not> hasEvaluatingToken (utf16 ''r'') \<and> \<not> hasSpecExecutingToken (utf16 ''r'')
   \<and> \<not> hasExecutingToken (utf16 ''r'')
   \<and> \<not> hasDecidingToken (utf16 ''r'') \<and> \<not> hasPlanningToken (utf16 ''r'')
   \<and> \<not> hasEvaluatingToken (utf16 ''write'' @ utf16 ''r'')
   \<and> \<not> hasSpecExecutingToken (utf16 ''write'' @ utf16 ''r'')
   \<and> \<not> hasExecutingToken (utf16 ''write'' @ utf16 ''r'')
   \<and> \<not> hasDecidingToken (utf16 ''write'' @ utf16 ''r'')
   \<and> \<not> hasPlanningToken (utf16 ''write'' @ utf16 ''r'')
   \<and> detectReasoningStage (utf16 ''write'' @ utf16 ''r'') = ANALYZING
   \<and> priority (detectReasoningStage (utf16 ''write'' @ utf16 ''r''))
       < priority (detectReasoningStage (utf16 ''write''))"
proof -
  have "\<not> hasEvaluatingToken (utf16 ''write'')" and "hasExecutingToken (utf16 ''write'')"
    by (simp_all add: token_eval)
  then have 1: "detectReasoningStage (utf16 ''write'') = EXECUTING"
    by (simp add: detectReasoningStage_tokens)
  have 2: "\<not> hasEvaluatingToken (utf16 ''r'')"
    "\<not> hasExecutingToken (utf16 ''r'')"
    "\<not> hasDecidingToken (utf16 ''r'')" "\<not> hasPlanningToken (utf16 ''r'')"
    by (simp_all add: token_eval)
  have 3: "\<not> hasEvaluatingToken (utf16 ''write'' @ utf16 ''r'')"
    "\<not> hasExecutingToken (utf16 ''write'' @ utf16 ''r'')"
    "\<not> hasDecidingToken (utf16 ''write'' @ utf16 ''r'')"
    "\<not> hasPlanningToken (utf16 ''write'' @ utf16 ''r'')"
    by (simp_all add: token_eval)
  have 4: "\<not> hasSpecExecutingToken (utf16 ''r'')"
    "\<not> hasSpecExecutingToken (utf16 ''write'' @ utf16 ''r'')"
    by (simp_all add: spec_token_eval)
  from 3 have 5: "detectReasoningStage (utf16 ''write'' @ utf16 ''r'') = ANALYZING"
    by (simp add: detectReasoningStage_tokens)
  from 1 2 3 4 5 show ?thesis by simp
qed

text \<open>
  C8, amended. Let \<open>s\<close> be a text and \<open>t\<close> a fragment. Appending \<open>t\<close> moves the
  classification to a stage of lower priority exactly when \<open>s\<close> is classified Executing
  and the join takes its token away: every Executing token of \<open>s\<close> is one of the closed
  words \<open>implement\<close>, \<open>implementing\<close>, \<open>implemented\<close>, \<open>write\<close>, \<open>writing\<close>,
  \<open>written\<close> ending exactly at the end of \<open>s\<close>, \<open>t\<close> begins with a word character,
  the word formed at the join is none of those closed words, and the part of \<open>t\<close> after
  its leading word characters holds no Evaluating or Executing token. In every other
  case the stage of \<open>s @ t\<close> is the stage of \<open>s\<close> or one of higher priority. Whenever
  the priority rises, a token of the new stage is present in \<open>s @ t\<close> that was not
  present in \<open>s\<close>.
\<close>

theorem append_stability:
  "(priority (detectReasoningStage (s @ t)) < priority (detectReasoningStage s)
      \<longleftrightarrow> detectReasoningStage s = EXECUTING \<and> joinLosesToken s t)
   \<and> (\<not> (detectReasoningStage s = EXECUTING \<and> joinLosesToken s t) \<longrightarrow>
        detectReasoningStage (s @ t) = detectReasoningStage s
        \<or> priority (detectReasoningStage s) < priority (detectReasoningStage (s @ t)))
   \<and> (priority (detectReasoningStage s) < priority (detectReasoningStage (s @ t)) \<longrightarrow>
        hasTokenOf (detectReasoningStage (s @ t)) (s @ t)
        \<and> \<not> hasTokenOf (detectReasoningStage (s @ t)) s)"
proof (intro conjI impI)
  show "priority (detectReasoningStage (s @ t)) < priority (detectReasoningStage s)
      \<longleftrightarrow> detectReasoningStage s = EXECUTING \<and> joinLosesToken s t"
    by (rule lowers_iff)
next
  assume "\<not> (detectReasoningStage s = EXECUTING \<and> joinLosesToken s t)"
  then have "\<not> priority (detectReasoningStage (s @ t)) < priority (detectReasoningStage s)"
    using lowers_iff [of s t] by blast
  then show "detectReasoningStage (s @ t) = detectReasoningStage s
        \<or> priority (detectReasoningStage s) < priority (detectReasoningStage (s @ t))"
    using priority_inj [of "detectReasoningStage s" "detectReasoningStage (s @ t)"]
    by (auto simp: not_less le_less)
next
  assume lt: "priority (detectReasoningStage s) < priority (detectReasoningStage (s @ t))"
  then have "detectReasoningStage (s @ t) \<noteq> ANALYZING"
    by (cases "detectReasoningStage (s @ t)") simp_all
  then show "hasTokenOf (detectReasoningStage (s @ t)) (s @ t)" by (rule stage_has_token)
next
  assume lt: "priority (detectReasoningStage s) < priority (detectReasoningStage (s @ t))"
  then show "\<not> hasTokenOf (detectReasoningStage (s @ t)) s" by (rule higher_has_no_token)
qed

theorem append_stability_witness:
  "detectReasoningStage (utf16 ''execute'') = EXECUTING
   \<and> \<not> joinLosesToken (utf16 ''execute'') (utf16 ''d'')
   \<and> detectReasoningStage (utf16 ''execute'' @ utf16 ''d'') = EXECUTING
   \<and> detectReasoningStage (utf16 ''I will write the func'') = EXECUTING
   \<and> \<not> joinLosesToken (utf16 ''I will write the func'') (utf16 ''tion'')
   \<and> detectReasoningStage (utf16 ''I will write the func'' @ utf16 ''tion'') = EXECUTING
   \<and> detectReasoningStage (utf16 ''Write'') = EXECUTING
   \<and> joinLosesToken (utf16 ''Write'') (utf16 ''Rs plan'')
   \<and> priority (detectReasoningStage (utf16 ''Write'' @ utf16 ''Rs plan''))
       < priority (detectReasoningStage (utf16 ''Write''))
   \<and> detectReasoningStage (utf16 ''Let me plan'') = PLANNING
   \<and> detectReasoningStage (utf16 ''Let me plan'' @ utf16 '' and check'') = EVALUATING
   \<and> hasTokenOf EVALUATING (utf16 ''Let me plan'' @ utf16 '' and check'')
   \<and> \<not> hasTokenOf EVALUATING (utf16 ''Let me plan'')"
proof -
  have "\<not> hasEvaluatingToken (utf16 ''execute'')" and "hasExecutingToken (utf16 ''execute'')"
    by (simp_all add: token_eval)
  then have a1: "detectReasoningStage (utf16 ''execute'') = EXECUTING"
    by (simp add: detectReasoningStage_tokens)
  have a2: "\<not> joinLosesToken (utf16 ''execute'') (utf16 ''d'')"
    by (simp add: join_eval token_eval)
  then have "\<not> (detectReasoningStage (utf16 ''execute'') = EXECUTING
                \<and> joinLosesToken (utf16 ''execute'') (utf16 ''d''))"
    by simp
  with append_stability [of "utf16 ''execute''" "utf16 ''d''", THEN conjunct2, THEN conjunct1]
  have "detectReasoningStage (utf16 ''execute'' @ utf16 ''d'')
          = detectReasoningStage (utf16 ''execute'')
        \<or> priority (detectReasoningStage (utf16 ''execute''))
            < priority (detectReasoningStage (utf16 ''execute'' @ utf16 ''d''))"
    by (rule mp)
  moreover have "\<not> hasEvaluatingToken (utf16 ''execute'' @ utf16 ''d'')"
    by (simp add: token_eval)
  then have "priority (detectReasoningStage (utf16 ''execute'' @ utf16 ''d'')) < 4"
    by (cases "detectReasoningStage (utf16 ''execute'' @ utf16 ''d'')")
       (simp_all add: detectReasoningStage_tokens split: if_splits)
  ultimately have a3: "detectReasoningStage (utf16 ''execute'' @ utf16 ''d'') = EXECUTING"
    using a1 by auto
  have "\<not> hasEvaluatingToken (utf16 ''I will write the func'')"
    and "hasExecutingToken (utf16 ''I will write the func'')"
    by (simp_all add: token_eval)
  then have b1: "detectReasoningStage (utf16 ''I will write the func'') = EXECUTING"
    by (simp add: detectReasoningStage_tokens)
  have b2: "\<not> joinLosesToken (utf16 ''I will write the func'') (utf16 ''tion'')"
    by (simp add: join_eval token_eval)
  then have "\<not> (detectReasoningStage (utf16 ''I will write the func'') = EXECUTING
                \<and> joinLosesToken (utf16 ''I will write the func'') (utf16 ''tion''))"
    by simp
  with append_stability [of "utf16 ''I will write the func''" "utf16 ''tion''",
      THEN conjunct2, THEN conjunct1]
  have "detectReasoningStage (utf16 ''I will write the func'' @ utf16 ''tion'')
          = detectReasoningStage (utf16 ''I will write the func'')
        \<or> priority (detectReasoningStage (utf16 ''I will write the func''))
            < priority (detectReasoningStage (utf16 ''I will write the func'' @ utf16 ''tion''))"
    by (rule mp)
  moreover have "\<not> hasEvaluatingToken (utf16 ''I will write the func'' @ utf16 ''tion'')"
    by (simp add: token_eval)
  then have "priority (detectReasoningStage (utf16 ''I will write the func'' @ utf16 ''tion'')) < 4"
    by (cases "detectReasoningStage (utf16 ''I will write the func'' @ utf16 ''tion'')")
       (simp_all add: detectReasoningStage_tokens split: if_splits)
  ultimately have b3:
    "detectReasoningStage (utf16 ''I will write the func'' @ utf16 ''tion'') = EXECUTING"
    using b1 by auto
  have "\<not> hasEvaluatingToken (utf16 ''Write'')" and "hasExecutingToken (utf16 ''Write'')"
    by (simp_all add: token_eval)
  then have c1: "detectReasoningStage (utf16 ''Write'') = EXECUTING"
    by (simp add: detectReasoningStage_tokens)
  have c2: "joinLosesToken (utf16 ''Write'') (utf16 ''Rs plan'')"
    by (simp add: join_eval token_eval)
  from c1 c2 have "detectReasoningStage (utf16 ''Write'') = EXECUTING
                   \<and> joinLosesToken (utf16 ''Write'') (utf16 ''Rs plan'')"
    by (rule conjI)
  with append_stability [of "utf16 ''Write''" "utf16 ''Rs plan''", THEN conjunct1]
  have c3: "priority (detectReasoningStage (utf16 ''Write'' @ utf16 ''Rs plan''))
              < priority (detectReasoningStage (utf16 ''Write''))"
    by (rule iffD2)
  have "\<not> hasEvaluatingToken (utf16 ''Let me plan'')"
    and "\<not> hasExecutingToken (utf16 ''Let me plan'')"
    and "\<not> hasDecidingToken (utf16 ''Let me plan'')"
    and "hasPlanningToken (utf16 ''Let me plan'')"
    by (simp_all add: token_eval)
  then have d1: "detectReasoningStage (utf16 ''Let me plan'') = PLANNING"
    by (simp add: detectReasoningStage_tokens)
  have "hasEvaluatingToken (utf16 ''Let me plan'' @ utf16 '' and check'')"
    by (simp add: token_eval)
  then have d2: "detectReasoningStage (utf16 ''Let me plan'' @ utf16 '' and check'') = EVALUATING"
    by (simp add: detectReasoningStage_tokens)
  from d1 d2 have "priority (detectReasoningStage (utf16 ''Let me plan''))
      < priority (detectReasoningStage (utf16 ''Let me plan'' @ utf16 '' and check''))"
    by simp
  with append_stability [of "utf16 ''Let me plan''" "utf16 '' and check''",
      THEN conjunct2, THEN conjunct2]
  have "hasTokenOf (detectReasoningStage (utf16 ''Let me plan'' @ utf16 '' and check''))
          (utf16 ''Let me plan'' @ utf16 '' and check'')
        \<and> \<not> hasTokenOf (detectReasoningStage (utf16 ''Let me plan'' @ utf16 '' and check''))
              (utf16 ''Let me plan'')"
    by (rule mp)
  then have d3: "hasTokenOf EVALUATING (utf16 ''Let me plan'' @ utf16 '' and check'')"
    and d4: "\<not> hasTokenOf EVALUATING (utf16 ''Let me plan'')"
    unfolding d2 by (rule conjunct1, rule conjunct2)
  from a1 a2 a3 b1 b2 b3 c1 c2 c3 d1 d2 d3 d4 show ?thesis by (intro conjI)
qed

section \<open>Properties of the console modules\<close>

lemma labelCount_append: "labelCount (xs @ ys) = labelCount xs + labelCount ys"
  by (simp add: labelCount_def)

lemma labelCount_Written: "labelCount (map Written ds) = 0"
  by (induction ds) (simp_all add: labelCount_def)

lemma labelCount_lines: "labelCount (concat (map (\<lambda>t. [Written t, Newline]) ts)) = 0"
  by (induction ts) (simp_all add: labelCount_def)

lemma streamDeltas_started:
  assumes "claudeTurnStarted st"
  shows "stdout (streamDeltas ds st) = stdout st @ map Written ds
         \<and> claudeTurnStarted (streamDeltas ds st)"
  using assms
proof (induction ds arbitrary: st)
  case Nil
  then show ?case by (simp add: streamDeltas_def)
next
  case (Cons d ds)
  let ?st = "console_reasoning_claudeStream d st"
  from Cons.prems have "claudeTurnStarted ?st" and "stdout ?st = stdout st @ [Written d]"
    by (simp_all add: console_reasoning_claudeStream_def)
  with Cons.IH [of ?st] show ?case by (simp add: streamDeltas_def)
qed

lemma streamDeltas_fresh:
  assumes "\<not> claudeTurnStarted st" and "ds \<noteq> []"
  shows "stdout (streamDeltas ds st) = stdout st @ [Newline, SpeakerLabel] @ map Written ds"
    and "claudeTurnStarted (streamDeltas ds st)"
proof -
  from assms(2) obtain d rest where ds: "ds = d # rest" by (cases ds) auto
  let ?st = "console_reasoning_claudeStream d st"
  from assms(1) have 1: "claudeTurnStarted ?st"
    and 2: "stdout ?st = stdout st @ [Newline, SpeakerLabel, Written d]"
    by (simp_all add: console_reasoning_claudeStream_def Let_def)
  have 3: "streamDeltas ds st = streamDeltas rest ?st" by (simp add: ds streamDeltas_def)
  from streamDeltas_started [OF 1, of rest] 2 3 ds
  show "stdout (streamDeltas ds st) = stdout st @ [Newline, SpeakerLabel] @ map Written ds"
    and "claudeTurnStarted (streamDeltas ds st)"
    by simp_all
qed

lemma printTexts_started:
  assumes "claudeTurnStarted c"
  shows "stdout (printTexts ts c) = stdout c @ concat (map (\<lambda>t. [Written t, Newline]) ts)
         \<and> claudeTurnStarted (printTexts ts c)"
  using assms
proof (induction ts arbitrary: c)
  case Nil
  then show ?case by (simp add: printTexts_def)
next
  case (Cons t ts)
  let ?c = "console_out_claude t c"
  from Cons.prems have "claudeTurnStarted ?c" and "stdout ?c = stdout c @ [Written t, Newline]"
    by (simp_all add: console_out_claude_def)
  with Cons.IH [of ?c] show ?case by (simp add: printTexts_def)
qed

lemma printTexts_fresh:
  assumes "\<not> claudeTurnStarted c" and "ts \<noteq> []"
  shows "stdout (printTexts ts c) =
           stdout c @ SpeakerLabel # concat (map (\<lambda>t. [Written t, Newline]) ts)"
    and "claudeTurnStarted (printTexts ts c)"
proof -
  from assms(2) obtain t rest where ts: "ts = t # rest" by (cases ts) auto
  let ?c = "console_out_claude t c"
  from assms(1) have 1: "claudeTurnStarted ?c"
    and 2: "stdout ?c = stdout c @ [SpeakerLabel, Written t, Newline]"
    by (simp_all add: console_out_claude_def)
  have 3: "printTexts ts c = printTexts rest ?c" by (simp add: ts printTexts_def)
  from printTexts_started [OF 1, of rest] 2 3 ts
  show "stdout (printTexts ts c) =
           stdout c @ SpeakerLabel # concat (map (\<lambda>t. [Written t, Newline]) ts)"
    and "claudeTurnStarted (printTexts ts c)"
    by simp_all
qed

text \<open>
  C9. Within one assistant turn, that is from a state in which the label flag is clear,
  any number \<open>N \<ge> 1\<close> of consecutive text deltas writes the speaker label exactly once,
  before the first delta; the deltas after it are written raw. The flag is cleared by
  \<open>finishClaudeTurn\<close>, the call the source prescribes for the moment the input loop
  resumes, so the first delta of the next turn writes the label again. The same holds
  for the texts printed by \<open>claude\<close> of \<open>console.ts\<close>.
\<close>

theorem turn_label_once:
  "(\<not> claudeTurnStarted st \<and> ds \<noteq> [] \<longrightarrow>
      stdout (streamDeltas ds st) = stdout st @ [Newline, SpeakerLabel] @ map Written ds
      \<and> labelCount (stdout (streamDeltas ds st)) = labelCount (stdout st) + 1
      \<and> \<not> claudeTurnStarted (console_reasoning_finishClaudeTurn (streamDeltas ds st))
      \<and> stdout (console_reasoning_claudeStream d
                  (console_reasoning_finishClaudeTurn (streamDeltas ds st))) =
          stdout (console_reasoning_finishClaudeTurn (streamDeltas ds st))
            @ [Newline, SpeakerLabel, Written d])
   \<and> (\<not> claudeTurnStarted c \<and> ts \<noteq> [] \<longrightarrow>
      stdout (printTexts ts c) =
        stdout c @ SpeakerLabel # concat (map (\<lambda>t. [Written t, Newline]) ts)
      \<and> labelCount (stdout (printTexts ts c)) = labelCount (stdout c) + 1
      \<and> \<not> claudeTurnStarted (console_out_finishClaudeTurn (printTexts ts c))
      \<and> stdout (console_out_claude t (console_out_finishClaudeTurn (printTexts ts c))) =
          stdout (console_out_finishClaudeTurn (printTexts ts c))
            @ [SpeakerLabel, Written t, Newline])"
proof (intro conjI impI)
  assume a: "\<not> claudeTurnStarted st \<and> ds \<noteq> []"
  then have out: "stdout (streamDeltas ds st) = stdout st @ [Newline, SpeakerLabel] @ map Written ds"
    by (simp add: streamDeltas_fresh)
  then show "stdout (streamDeltas ds st) = stdout st @ [Newline, SpeakerLabel] @ map Written ds" .
  from out show "labelCount (stdout (streamDeltas ds st)) = labelCount (stdout st) + 1"
    by (simp add: labelCount_append labelCount_Written) (simp add: labelCount_def)
  let ?next = "console_reasoning_finishClaudeTurn (streamDeltas ds st)"
  show n: "\<not> claudeTurnStarted ?next"
    by (simp add: console_reasoning_finishClaudeTurn_def Let_def)
  from n show "stdout (console_reasoning_claudeStream d ?next) =
                 stdout ?next @ [Newline, SpeakerLabel, Written d]"
    by (simp add: console_reasoning_claudeStream_def Let_def)
next
  assume a: "\<not> claudeTurnStarted c \<and> ts \<noteq> []"
  then have out: "stdout (printTexts ts c) =
        stdout c @ SpeakerLabel # concat (map (\<lambda>t. [Written t, Newline]) ts)"
    by (simp add: printTexts_fresh)
  then show "stdout (printTexts ts c) =
        stdout c @ SpeakerLabel # concat (map (\<lambda>t. [Written t, Newline]) ts)" .
  have "labelCount (SpeakerLabel # concat (map (\<lambda>t. [Written t, Newline]) ts)) = 1"
    using labelCount_lines [of ts] by (simp add: labelCount_def)
  with out show "labelCount (stdout (printTexts ts c)) = labelCount (stdout c) + 1"
    by (simp add: labelCount_append)
  let ?next = "console_out_finishClaudeTurn (printTexts ts c)"
  show n: "\<not> claudeTurnStarted ?next"
    by (simp add: console_out_finishClaudeTurn_def)
  from n show "stdout (console_out_claude t ?next) = stdout ?next @ [SpeakerLabel, Written t, Newline]"
    by (simp add: console_out_claude_def)
qed

theorem turn_label_once_witness:
  "\<not> claudeTurnStarted \<lparr>claudeTurnStarted = False, stdout = [], reasoningBlockActive = False\<rparr>
   \<and> [''Hello'', '' world''] \<noteq> []
   \<and> stdout (streamDeltas [''Hello'', '' world'']
        \<lparr>claudeTurnStarted = False, stdout = [], reasoningBlockActive = False\<rparr>) =
       [Newline, SpeakerLabel, Written ''Hello'', Written '' world'']
   \<and> labelCount (stdout (streamDeltas [''Hello'', '' world'']
        \<lparr>claudeTurnStarted = False, stdout = [], reasoningBlockActive = False\<rparr>)) = 1
   \<and> \<not> claudeTurnStarted \<lparr>claudeTurnStarted = False, stdout = []\<rparr>
   \<and> stdout (printTexts [''Hello'', ''world''] \<lparr>claudeTurnStarted = False, stdout = []\<rparr>) =
       [SpeakerLabel, Written ''Hello'', Newline, Written ''world'', Newline]
   \<and> labelCount (stdout (printTexts [''Hello'', ''world'']
        \<lparr>claudeTurnStarted = False, stdout = []\<rparr>)) = 1"
  using turn_label_once [of "\<lparr>claudeTurnStarted = False, stdout = [], reasoningBlockActive = False\<rparr>"
      "[''Hello'', '' world'']" d "\<lparr>claudeTurnStarted = False, stdout = []\<rparr>"
      "[''Hello'', ''world'']" t]
  by (simp add: labelCount_def)

text \<open>
  C10. \<open>finishClaudeTurn\<close> does nothing to an unstarted turn: with the flag
  \<open>claudeTurnStarted\<close> clear it writes nothing and leaves the flag clear. It is
  idempotent, so two calls in a row write the closing line break at most once: once if
  the turn had started, not at all otherwise. In \<open>console_reasoning\<close> it clears
  \<open>reasoningBlockActive\<close> in every case.
\<close>

theorem finishClaudeTurn_idempotent:
  "(\<not> claudeTurnStarted c \<longrightarrow> console_out_finishClaudeTurn c = c)
   \<and> \<not> claudeTurnStarted (console_out_finishClaudeTurn c)
   \<and> console_out_finishClaudeTurn (console_out_finishClaudeTurn c) = console_out_finishClaudeTurn c
   \<and> stdout (console_out_finishClaudeTurn (console_out_finishClaudeTurn c)) =
       stdout c @ (if claudeTurnStarted c then [Newline] else [])
   \<and> (\<not> claudeTurnStarted r \<longrightarrow>
        stdout (console_reasoning_finishClaudeTurn r) = stdout r
        \<and> console_reasoning_finishClaudeTurn r = r\<lparr>reasoningBlockActive := False\<rparr>)
   \<and> \<not> claudeTurnStarted (console_reasoning_finishClaudeTurn r)
   \<and> console_reasoning_finishClaudeTurn (console_reasoning_finishClaudeTurn r) =
       console_reasoning_finishClaudeTurn r
   \<and> stdout (console_reasoning_finishClaudeTurn (console_reasoning_finishClaudeTurn r)) =
       stdout r @ (if claudeTurnStarted r then [Newline] else [])
   \<and> \<not> reasoningBlockActive (console_reasoning_finishClaudeTurn r)"
proof -
  let ?out = console_out_finishClaudeTurn and ?rea = console_reasoning_finishClaudeTurn
  have out_noop: "\<not> claudeTurnStarted c \<longrightarrow> ?out c = c"
    by (simp add: console_out_finishClaudeTurn_def)
  have out_clear: "\<not> claudeTurnStarted (?out c)"
    by (simp add: console_out_finishClaudeTurn_def)
  from out_clear have out_idem: "?out (?out c) = ?out c"
    by (simp add: console_out_finishClaudeTurn_def [of "?out c"])
  have out_written: "stdout (?out (?out c)) = stdout c @ (if claudeTurnStarted c then [Newline] else [])"
    unfolding out_idem by (simp add: console_out_finishClaudeTurn_def)
  have rea_noop: "\<not> claudeTurnStarted r \<longrightarrow>
        stdout (?rea r) = stdout r \<and> ?rea r = r\<lparr>reasoningBlockActive := False\<rparr>"
    by (simp add: console_reasoning_finishClaudeTurn_def Let_def)
  have rea_clear: "\<not> claudeTurnStarted (?rea r)"
    by (simp add: console_reasoning_finishClaudeTurn_def Let_def)
  have rea_flag: "\<not> reasoningBlockActive (?rea r)"
    by (simp add: console_reasoning_finishClaudeTurn_def Let_def)
  from rea_clear rea_flag have rea_idem: "?rea (?rea r) = ?rea r"
    by (simp add: console_reasoning_finishClaudeTurn_def [of "?rea r"] Let_def)
  have rea_written: "stdout (?rea (?rea r)) = stdout r @ (if claudeTurnStarted r then [Newline] else [])"
    unfolding rea_idem by (simp add: console_reasoning_finishClaudeTurn_def Let_def)
  show ?thesis by (intro conjI; fact)
qed

theorem finishClaudeTurn_idempotent_witness:
  "\<not> claudeTurnStarted \<lparr>claudeTurnStarted = False, stdout = [Written ''You: '']\<rparr>
   \<and> console_out_finishClaudeTurn \<lparr>claudeTurnStarted = False, stdout = [Written ''You: '']\<rparr> =
       \<lparr>claudeTurnStarted = False, stdout = [Written ''You: '']\<rparr>
   \<and> \<not> claudeTurnStarted
        \<lparr>claudeTurnStarted = False, stdout = [], reasoningBlockActive = True\<rparr>
   \<and> stdout (console_reasoning_finishClaudeTurn
        \<lparr>claudeTurnStarted = False, stdout = [], reasoningBlockActive = True\<rparr>) =
       stdout \<lparr>claudeTurnStarted = False, stdout = [], reasoningBlockActive = True\<rparr>
   \<and> \<not> reasoningBlockActive (console_reasoning_finishClaudeTurn
        \<lparr>claudeTurnStarted = False, stdout = [], reasoningBlockActive = True\<rparr>)"
proof -
  let ?c = "\<lparr>claudeTurnStarted = False, stdout = [Written ''You: '']\<rparr>"
  let ?r = "\<lparr>claudeTurnStarted = False, stdout = [], reasoningBlockActive = True\<rparr>"
  note t = finishClaudeTurn_idempotent [of ?c ?r]
  have c1: "\<not> claudeTurnStarted ?c" by simp
  have r1: "\<not> claudeTurnStarted ?r" by simp
  from t [THEN conjunct1] c1 have a: "console_out_finishClaudeTurn ?c = ?c" by (rule mp)
  from t [THEN conjunct2, THEN conjunct2, THEN conjunct2, THEN conjunct2, THEN conjunct1] r1
  have "stdout (console_reasoning_finishClaudeTurn ?r) = stdout ?r
        \<and> console_reasoning_finishClaudeTurn ?r = ?r\<lparr>reasoningBlockActive := False\<rparr>"
    by (rule mp)
  then have b: "stdout (console_reasoning_finishClaudeTurn ?r) = stdout ?r" by (rule conjunct1)
  from t [THEN conjunct2, THEN conjunct2, THEN conjunct2, THEN conjunct2, THEN conjunct2,
      THEN conjunct2, THEN conjunct2, THEN conjunct2]
  have c: "\<not> reasoningBlockActive (console_reasoning_finishClaudeTurn ?r)" .
  show ?thesis by (intro conjI; fact)
qed

section \<open>Properties of tool dispatch and of the agent loop\<close>

lemma dispatch_id: "toolUseId (fst (dispatch registry b st)) = tu_id b"
  by (cases st) (simp add: dispatch_def split: option.splits prod.splits sum.splits)


lemma dispatchAll_ids: "map toolUseId (fst (dispatchAll registry bs st)) = map tu_id bs"
proof (induction bs arbitrary: st)
  case Nil
  show ?case by simp
next
  case (Cons b bs)
  obtain outcome st' where d: "dispatch registry b st = (outcome, st')" by (cases "dispatch registry b st")
  obtain outcomes st'' where ds: "dispatchAll registry bs st' = (outcomes, st'')"
    by (cases "dispatchAll registry bs st'")
  from d have "toolUseId outcome = tu_id b" using dispatch_id [of registry b st] by simp
  moreover from ds have "map toolUseId outcomes = map tu_id bs" using Cons.IH [of st'] by simp
  ultimately show ?case using d ds by simp
qed

lemma dispatchAll_length: "length (fst (dispatchAll registry bs st)) = length bs"
  using dispatchAll_ids [of registry bs st] by (metis length_map)



lemma dispatchAll_Cons:
  "dispatchAll registry (b # bs) st =
     (fst (dispatch registry b st) # fst (dispatchAll registry bs (snd (dispatch registry b st))),
      snd (dispatchAll registry bs (snd (dispatch registry b st))))"
  by (simp split: prod.splits)

lemma dispatchAll_nth:
  "k < length bs \<Longrightarrow>
     fst (dispatchAll registry bs st) ! k =
       fst (dispatch registry (bs ! k) (snd (dispatchAll registry (take k bs) st)))"
proof (induction bs arbitrary: k st)
  case Nil
  then show ?case by simp
next
  case (Cons b bs)
  show ?case
  proof (cases k)
    case 0
    then show ?thesis by (simp add: dispatchAll_Cons del: dispatchAll.simps(2))
  next
    case (Suc j)
    with Cons.prems have "j < length bs" by simp
    from Cons.IH [OF this, of "snd (dispatch registry b st)"] Suc
    show ?thesis by (simp add: dispatchAll_Cons del: dispatchAll.simps(2))
  qed
qed

lemma dispatch_not_found:
  assumes "registry (tu_name b) = None"
  shows "dispatch registry b (w, ns) =
           (\<lparr>toolUseId = tu_id b, content = ''tool not found: '' @ tu_name b, isError = True\<rparr>,
            (w, ns @ [ToolStarted (tu_name b), ToolFinished (tu_name b) False]))"
  using assms by (simp add: dispatch_def)

lemma dispatch_rejected:
  assumes "registry (tu_name b) = Some execute" and "execute (tu_input b) w = (Inl failure, w')"
  shows "dispatch registry b (w, ns) =
           (\<lparr>toolUseId = tu_id b, content = failure, isError = True\<rparr>,
            (w', ns @ [ToolStarted (tu_name b), ToolFinished (tu_name b) False]))"
  using assms by (simp add: dispatch_def)

lemma dispatch_returned:
  assumes "registry (tu_name b) = Some execute" and "execute (tu_input b) w = (Inr returned, w')"
  shows "dispatch registry b (w, ns) =
           (\<lparr>toolUseId = tu_id b, content = returned, isError = False\<rparr>,
            (w', ns @ [ToolStarted (tu_name b), ToolFinished (tu_name b) True]))"
  using assms by (simp add: dispatch_def)

lemma dispatchTurn_state:
  assumes "conversation st \<noteq> []"
  shows "dispatchTurn registry st =
           st\<lparr>conversation := conversation st @
                  [\<lparr>role = User,
                    blocks = map (\<lambda>outcome. ToolResultBlock (toolUseId outcome) (content outcome)
                                               (isError outcome))
                      (fst (dispatchAll registry (toolUses (blocks (last (conversation st))))
                             (world st, shown st)))\<rparr>],
              world := fst (snd (dispatchAll registry (toolUses (blocks (last (conversation st))))
                             (world st, shown st))),
              shown := snd (snd (dispatchAll registry (toolUses (blocks (last (conversation st))))
                             (world st, shown st))),
              phase := Requesting\<rparr>"
proof -
  have "map toolResult = map (\<lambda>outcome. ToolResultBlock (toolUseId outcome) (content outcome)
                                               (isError outcome))"
    by (intro arg_cong [where f = map] ext) (simp add: toolResult_def)
  with assms show ?thesis
    by (cases "conversation st") (simp_all add: dispatchTurn_def split: prod.splits)
qed

lemma toolResultIds_toolResult: "toolResultIds (map toolResult outcomes) = map toolUseId outcomes"
  by (induction outcomes) (simp_all add: toolResult_def)

lemma toolUses_toolResult: "toolUses (map toolResult outcomes) = []"
  by (induction outcomes) (simp_all add: toolResult_def)

lemma dispatchTurn_conversation:
  assumes "conversation st \<noteq> []"
  shows "conversation (dispatchTurn registry st) =
           conversation st @
             [\<lparr>role = User,
               blocks = map toolResult
                 (fst (dispatchAll registry (toolUses (blocks (last (conversation st))))
                        (world st, shown st)))\<rparr>]"
    and "phase (dispatchTurn registry st) = Requesting"
  using assms by (auto simp: dispatchTurn_def split: list.splits prod.splits)

lemma dispatching_has_turn_step:
  assumes "phase st = Dispatching \<longrightarrow> conversation st \<noteq> []"
  shows "phase (step registry st a) = Dispatching \<longrightarrow> conversation (step registry st a) \<noteq> []"
proof (cases a)
  case StreamEnded
  with assms show ?thesis by (simp add: finishStream_def Let_def)
next
  case (TransportError m)
  with assms show ?thesis by (simp add: abortTurn_def)
next
  case DispatchTools
  with assms show ?thesis by (auto simp: dispatchTurn_conversation)
qed (use assms in auto)

lemma dispatching_has_turn_run:
  assumes "phase st = Dispatching \<longrightarrow> conversation st \<noteq> []"
  shows "phase (run registry st as) = Dispatching \<longrightarrow> conversation (run registry st as) \<noteq> []"
  using assms
proof (induction as arbitrary: st)
  case Nil
  then show ?case by simp
next
  case (Cons a as)
  from Cons.prems have "phase (step registry st a) = Dispatching
                          \<longrightarrow> conversation (step registry st a) \<noteq> []"
    by (rule dispatching_has_turn_step)
  then show ?case using Cons.IH [of "step registry st a"] by simp
qed

lemma dispatching_has_turn:
  "phase (run registry (initial w) as) = Dispatching
     \<Longrightarrow> conversation (run registry (initial w) as) \<noteq> []"
  using dispatching_has_turn_run [of "initial w" registry as] by (simp add: initial_def)

subsection \<open>Results answer the blocks of the turn before\<close>

lemma orderedFrom_snoc:
  "orderedFrom prev (ts @ [t]) \<longleftrightarrow>
     orderedFrom prev ts \<and> pairedInOrder (if ts = [] then prev else Some (last ts)) t"
  by (induction ts arbitrary: prev) auto

lemma toolResultIds_assistant: "toolResultIds (map assistantContent bs) = []"
proof (induction bs)
  case Nil
  show ?case by simp
next
  case (Cons b bs)
  then show ?case by (cases b) simp_all
qed

lemma loopOrdered_step:
  assumes inv: "loopOrdered st"
  shows "loopOrdered (step registry st a)"
proof (cases a)
  case (UserLine line)
  with inv show ?thesis
    by (auto simp: loopOrdered_def conversationOrdered_def orderedFrom_snoc pairedInOrder_def)
next
  case RequestIssued
  with inv show ?thesis by (auto simp: loopOrdered_def)
next
  case (BlockFinalized b)
  with inv show ?thesis by (auto simp: loopOrdered_def)
next
  case StreamEnded
  with inv show ?thesis
    by (auto simp: loopOrdered_def finishStream_def Let_def conversationOrdered_def
        orderedFrom_snoc pairedInOrder_def toolResultIds_assistant)
next
  case (TransportError m)
  with inv show ?thesis by (auto simp: loopOrdered_def abortTurn_def)
next
  case DispatchTools
  show ?thesis
  proof (cases "phase st = Dispatching")
    case True
    let ?us = "toolUses (blocks (last (conversation st)))"
    let ?outs = "fst (dispatchAll registry ?us (world st, shown st))"
    from inv True have ne: "conversation st \<noteq> []"
      and ra: "role (last (conversation st)) = Assistant"
      and ci: "orderedFrom None (conversation st)"
      by (auto simp: loopOrdered_def conversationOrdered_def)
    have ids: "toolResultIds (map toolResult ?outs) = map tu_id ?us"
      by (simp add: toolResultIds_toolResult dispatchAll_ids)
    with ra have "pairedInOrder (Some (last (conversation st)))
                        \<lparr>role = User, blocks = map toolResult ?outs\<rparr>"
      by (simp add: pairedInOrder_def)
    with ci ne have "conversationOrdered (conversation (dispatchTurn registry st))"
      by (simp add: dispatchTurn_conversation conversationOrdered_def orderedFrom_snoc)
    moreover from ne have "phase (dispatchTurn registry st) = Requesting"
      by (rule dispatchTurn_conversation)
    ultimately show ?thesis using True DispatchTools by (simp add: loopOrdered_def)
  next
    case False
    with inv DispatchTools show ?thesis by simp
  qed
qed

lemma loopOrdered_run: "loopOrdered st \<Longrightarrow> loopOrdered (run registry st as)"
proof (induction as arbitrary: st)
  case Nil
  then show ?case by simp
next
  case (Cons a as)
  from Cons.prems have "loopOrdered (step registry st a)" by (rule loopOrdered_step)
  then show ?case using Cons.IH by simp
qed

lemma loopOrdered_initial: "loopOrdered (initial w)"
  by (simp add: loopOrdered_def initial_def conversationOrdered_def)

subsection \<open>With distinct identifiers a result matches one block only\<close>

lemma matchesExactlyOne_distinct:
  assumes "distinct (map tu_id us)" and "i \<in> set (map tu_id us)"
  shows "matchesExactlyOne us i"
  using assms
proof (induction us)
  case Nil
  then show ?case by simp
next
  case (Cons u us)
  show ?case
  proof (cases "tu_id u = i")
    case True
    from Cons.prems(1) have "tu_id u \<notin> tu_id ` set us" by simp
    with True have "\<forall>v\<in>set us. tu_id v \<noteq> i" by blast
    then have "filter (\<lambda>v. tu_id v = i) us = []"
      by (simp add: filter_empty_conv)
    with True show ?thesis by (simp add: matchesExactlyOne_def)
  next
    case False
    with Cons show ?thesis by (simp add: matchesExactlyOne_def)
  qed
qed

lemma pairedInOrder_resultsPaired:
  assumes p: "pairedInOrder prev t"
    and d: "case prev of None \<Rightarrow> True | Some p \<Rightarrow> distinct (map tu_id (toolUses (blocks p)))"
  shows "resultsPaired prev t"
proof (cases "toolResultIds (blocks t) = []")
  case True
  then show ?thesis by (simp add: resultsPaired_def)
next
  case False
  with p obtain q where prev: "prev = Some q" and u: "role t = User" and a: "role q = Assistant"
    and ids: "toolResultIds (blocks t) = map tu_id (toolUses (blocks q))"
    by (auto simp: pairedInOrder_def split: option.splits)
  from d prev have "distinct (map tu_id (toolUses (blocks q)))" by simp
  then have "list_all (matchesExactlyOne (toolUses (blocks q))) (map tu_id (toolUses (blocks q)))"
    by (auto simp: list_all_iff intro: matchesExactlyOne_distinct)
  with prev u a ids show ?thesis by (simp add: resultsPaired_def)
qed

lemma ordered_distinct_invariant:
  assumes "orderedFrom prev c" and "distinctIds c"
    and "case prev of None \<Rightarrow> True | Some p \<Rightarrow> distinct (map tu_id (toolUses (blocks p)))"
  shows "conversationInvariantFrom prev c"
  using assms
proof (induction c arbitrary: prev)
  case Nil
  show ?case by simp
next
  case (Cons t ts)
  from Cons.prems(1) have p: "pairedInOrder prev t" and o: "orderedFrom (Some t) ts" by simp_all
  from Cons.prems(2) have dt: "distinct (map tu_id (toolUses (blocks t)))" and ds: "distinctIds ts"
    by (simp_all add: distinctIds_def)
  from p Cons.prems(3) have "resultsPaired prev t" by (rule pairedInOrder_resultsPaired)
  moreover from o ds dt have "conversationInvariantFrom (Some t) ts" by (intro Cons.IH) simp_all
  ultimately show ?case by simp
qed

subsection \<open>The conversation only grows\<close>

lemma step_prefix: "prefix (conversation st) (conversation (step registry st a))"
proof (cases a)
  case StreamEnded
  then show ?thesis by (simp add: finishStream_def Let_def)
next
  case (TransportError m)
  then show ?thesis by (simp add: abortTurn_def)
next
  case DispatchTools
  then show ?thesis by (auto simp: dispatchTurn_def split: list.splits prod.splits)
qed auto

lemma run_prefix: "prefix (conversation st) (conversation (run registry st as))"
proof (induction as arbitrary: st)
  case Nil
  show ?case by simp
next
  case (Cons a as)
  have "prefix (conversation st) (conversation (step registry st a))" by (rule step_prefix)
  also have "prefix \<dots> (conversation (run registry (step registry st a) as))" by (rule Cons.IH)
  finally show ?case by simp
qed

lemma run_append: "run registry st (as @ bs) = run registry (run registry st as) bs"
  by (induction as arbitrary: st) simp_all

lemmas loop_eval =
  initial_def finishStream_def dispatchTurn_def abortTurn_def dispatch_def toolResult_def Let_def

lemmas invariant_eval =
  conversationInvariant_def resultsPaired_def matchesExactlyOne_def

subsection \<open>Order of dispatch\<close>



subsection \<open>The conversation invariant\<close>

text \<open>
  C3, as the specification states it, fails: nothing in the loop keeps the identifiers
  of the \<open>tool_use\<close> blocks of one assistant turn apart. When the inference service
  gives the identifier \<open>t1\<close> to two blocks of one turn, each of the two results matches
  two blocks of the assistant turn before it, not exactly one.
\<close>

theorem conversation_invariant_counterexample:
  "\<not> conversationInvariant (conversation (run Map.empty (initial ())
        [UserLine ''hi'', RequestIssued,
         BlockFinalized (FinalToolUse \<lparr>tu_id = ''t1'', tu_name = ''read_file'', tu_input = ''a''\<rparr>),
         BlockFinalized (FinalToolUse \<lparr>tu_id = ''t1'', tu_name = ''list_files'', tu_input = ''b''\<rparr>),
         StreamEnded, DispatchTools]))"
  by (simp add: loop_eval invariant_eval)

text \<open>
  C3, amended. In every state that the loop reaches, a \<open>tool_result\<close> block stands
  only in a user turn that follows an assistant turn at once, and the results of that
  user turn carry the identifiers of the \<open>tool_use\<close> blocks of the assistant turn,
  position by position. When moreover the \<open>tool_use\<close> blocks of each assistant turn
  carry distinct identifiers, the identifier of every result matches exactly one
  \<open>tool_use\<close> block of the assistant turn before it. The turn sequence is append-only:
  the conversation of an earlier state of a run is a prefix of that of every later state.
\<close>

theorem conversation_invariant:
  "conversationOrdered (conversation (run registry (initial w) as))
   \<and> (distinctIds (conversation (run registry (initial w) as)) \<longrightarrow>
        conversationInvariant (conversation (run registry (initial w) as)))
   \<and> prefix (conversation (run registry (initial w) (take k as)))
            (conversation (run registry (initial w) as))"
proof (intro conjI impI)
  have "loopOrdered (run registry (initial w) as)"
    using loopOrdered_initial by (rule loopOrdered_run)
  then show o: "conversationOrdered (conversation (run registry (initial w) as))"
    by (simp add: loopOrdered_def)
  assume "distinctIds (conversation (run registry (initial w) as))"
  with o show "conversationInvariant (conversation (run registry (initial w) as))"
    unfolding conversationInvariant_def conversationOrdered_def
    by (intro ordered_distinct_invariant) simp_all
next
  have "run registry (initial w) as =
          run registry (run registry (initial w) (take k as)) (drop k as)"
    by (simp add: run_append [symmetric])
  then show "prefix (conversation (run registry (initial w) (take k as)))
                  (conversation (run registry (initial w) as))"
    by (simp add: run_prefix)
qed

theorem conversation_invariant_witness:
  "distinctIds (conversation (run Map.empty (initial ())
      [UserLine ''hi'', RequestIssued,
       BlockFinalized (FinalToolUse \<lparr>tu_id = ''t1'', tu_name = ''read_file'', tu_input = ''a''\<rparr>),
       BlockFinalized (FinalToolUse \<lparr>tu_id = ''t2'', tu_name = ''list_files'', tu_input = ''b''\<rparr>),
       StreamEnded, DispatchTools]))
   \<and> conversationInvariant (conversation (run Map.empty (initial ())
      [UserLine ''hi'', RequestIssued,
       BlockFinalized (FinalToolUse \<lparr>tu_id = ''t1'', tu_name = ''read_file'', tu_input = ''a''\<rparr>),
       BlockFinalized (FinalToolUse \<lparr>tu_id = ''t2'', tu_name = ''list_files'', tu_input = ''b''\<rparr>),
       StreamEnded, DispatchTools]))
   \<and> toolResultIds (blocks (last (conversation (run Map.empty (initial ())
      [UserLine ''hi'', RequestIssued,
       BlockFinalized (FinalToolUse \<lparr>tu_id = ''t1'', tu_name = ''read_file'', tu_input = ''a''\<rparr>),
       BlockFinalized (FinalToolUse \<lparr>tu_id = ''t2'', tu_name = ''list_files'', tu_input = ''b''\<rparr>),
       StreamEnded, DispatchTools])))) = [''t1'', ''t2'']"
proof -
  let ?as = "[UserLine ''hi'', RequestIssued,
       BlockFinalized (FinalToolUse \<lparr>tu_id = ''t1'', tu_name = ''read_file'', tu_input = ''a''\<rparr>),
       BlockFinalized (FinalToolUse \<lparr>tu_id = ''t2'', tu_name = ''list_files'', tu_input = ''b''\<rparr>),
       StreamEnded, DispatchTools]"
  have d: "distinctIds (conversation (run Map.empty (initial ()) ?as))"
    by (simp add: loop_eval distinctIds_def)
  have i: "conversationInvariant (conversation (run Map.empty (initial ()) ?as))"
    using conversation_invariant [of Map.empty "()" ?as 0, THEN conjunct2, THEN conjunct1] d
    by (rule mp)
  have r: "toolResultIds (blocks (last (conversation (run Map.empty (initial ()) ?as)))) =
             [''t1'', ''t2'']"
    by (simp add: loop_eval)
  from d i r show ?thesis by (intro conjI)
qed

subsection \<open>Transport errors\<close>

text \<open>
  C4. An error of the transport in the phase \<open>Requesting\<close> or \<open>Streaming\<close> aborts the
  turn: the error is shown to the user, the loop is back in \<open>AwaitingInput\<close>, and the
  conversation is what it was before the request. Blocks that the stream had finalized
  before the error are dropped; no assistant turn, whole or partial, is appended.
\<close>

theorem transport_error_atomic:
  assumes "phase st = Requesting \<or> phase st = Streaming"
  shows "conversation (step registry st (TransportError message)) = conversation st
         \<and> phase (step registry st (TransportError message)) = AwaitingInput
         \<and> shown (step registry st (TransportError message)) = shown st @ [ErrorRaised message]
         \<and> world (step registry st (TransportError message)) = world st
         \<and> (phase st = Requesting \<longrightarrow>
              conversation (run registry st
                (RequestIssued # map BlockFinalized bs @ [TransportError message])) = conversation st
              \<and> phase (run registry st
                (RequestIssued # map BlockFinalized bs @ [TransportError message])) = AwaitingInput
              \<and> collected (run registry st
                (RequestIssued # map BlockFinalized bs @ [TransportError message])) = [])"
proof -
  have streaming: "run registry s (map BlockFinalized bs @ [TransportError message]) =
                     abortTurn message (s\<lparr>collected := collected s @ bs\<rparr>)"
    if "phase s = Streaming" for s :: "'a loop_state"
    using that
  proof (induction bs arbitrary: s)
    case Nil
    then show ?case by simp
  next
    case (Cons b bs)
    then show ?case by simp
  qed
  from assms show ?thesis
    by (auto simp: streaming abortTurn_def)
qed

theorem transport_error_atomic_witness:
  "phase (run Map.empty (initial ()) [UserLine ''hi'']) = Requesting
   \<and> conversation (run Map.empty (initial ())
        ([UserLine ''hi'', RequestIssued, BlockFinalized (FinalText ''Hel''),
          TransportError ''connection reset''])) = [\<lparr>role = User, blocks = [TextBlock ''hi'']\<rparr>]
   \<and> phase (run Map.empty (initial ())
        ([UserLine ''hi'', RequestIssued, BlockFinalized (FinalText ''Hel''),
          TransportError ''connection reset''])) = AwaitingInput"
proof -
  let ?st = "run Map.empty (initial ()) [UserLine ''hi'']"
  have p: "phase ?st = Requesting" by (simp add: initial_def)
  have c: "conversation ?st = [\<lparr>role = User, blocks = [TextBlock ''hi'']\<rparr>]"
    by (simp add: initial_def)
  have r: "run Map.empty (initial ())
        ([UserLine ''hi'', RequestIssued, BlockFinalized (FinalText ''Hel''),
          TransportError ''connection reset'']) =
        run Map.empty ?st (RequestIssued # map BlockFinalized [FinalText ''Hel'']
           @ [TransportError ''connection reset''])"
    by simp
  from p have "phase ?st = Requesting \<or> phase ?st = Streaming" by simp
  from transport_error_atomic [OF this, of Map.empty "''connection reset''" "[FinalText ''Hel'']"] p c
  show ?thesis unfolding r by simp
qed

subsection \<open>Failing tools\<close>

text \<open>
  C5. Dispatch is total and propagates no fault: whatever the block, it answers an
  outcome. For a name that is not registered the outcome is the error
  \<open>tool not found: <name>\<close> and the world is untouched; when \<open>execute\<close> rejects, the
  outcome is the failure message, marked as an error. In every state that the loop
  reaches in the phase \<open>Dispatching\<close> it goes on to \<open>Requesting\<close> with one user turn
  appended, whose blocks are the \<open>tool_result\<close> blocks of the outcomes: at the position
  of a block with an unregistered name stands the result \<open>tool not found: <name>\<close> with
  \<open>is_error\<close>, and at the position of a block whose tool rejects stands the failure
  message with \<open>is_error\<close>. An unregistered \<open>frobnicate\<close> yields
  \<open>tool not found: frobnicate\<close>.
\<close>

theorem dispatch_total:
  "(registry (tu_name b) = None \<longrightarrow>
      dispatch registry b (w, ns) =
        (\<lparr>toolUseId = tu_id b, content = ''tool not found: '' @ tu_name b, isError = True\<rparr>,
         (w, ns @ [ToolStarted (tu_name b), ToolFinished (tu_name b) False])))
   \<and> (registry (tu_name b) = Some execute \<and> execute (tu_input b) w = (Inl failure, w') \<longrightarrow>
      dispatch registry b (w, ns) =
        (\<lparr>toolUseId = tu_id b, content = failure, isError = True\<rparr>,
         (w', ns @ [ToolStarted (tu_name b), ToolFinished (tu_name b) False])))
   \<and> (registry (tu_name b) = Some execute \<and> execute (tu_input b) w = (Inr returned, w') \<longrightarrow>
      dispatch registry b (w, ns) =
        (\<lparr>toolUseId = tu_id b, content = returned, isError = False\<rparr>,
         (w', ns @ [ToolStarted (tu_name b), ToolFinished (tu_name b) True])))
   \<and> (s = run registry (initial w0) as \<and> phase s = Dispatching \<longrightarrow>
      phase (step registry s DispatchTools) = Requesting
      \<and> conversation (step registry s DispatchTools) =
          conversation s @
            [\<lparr>role = User,
              blocks = map (\<lambda>outcome. ToolResultBlock (toolUseId outcome) (content outcome)
                                         (isError outcome))
                (fst (dispatchAll registry (toolUses (blocks (last (conversation s))))
                       (world s, shown s)))\<rparr>])
   \<and> (s = run registry (initial w0) as \<and> phase s = Dispatching
        \<and> k < length (toolUses (blocks (last (conversation s))))
        \<and> registry (tu_name (toolUses (blocks (last (conversation s))) ! k)) = None \<longrightarrow>
      blocks (last (conversation (step registry s DispatchTools))) ! k =
        ToolResultBlock (tu_id (toolUses (blocks (last (conversation s))) ! k))
          (''tool not found: '' @ tu_name (toolUses (blocks (last (conversation s))) ! k)) True)
   \<and> (s = run registry (initial w0) as \<and> phase s = Dispatching
        \<and> k < length (toolUses (blocks (last (conversation s))))
        \<and> registry (tu_name (toolUses (blocks (last (conversation s))) ! k)) = Some execute
        \<and> fst (execute (tu_input (toolUses (blocks (last (conversation s))) ! k))
                 (fst (snd (dispatchAll registry
                              (take k (toolUses (blocks (last (conversation s)))))
                              (world s, shown s))))) = Inl failure \<longrightarrow>
      blocks (last (conversation (step registry s DispatchTools))) ! k =
        ToolResultBlock (tu_id (toolUses (blocks (last (conversation s))) ! k)) failure True)
   \<and> (registry ''frobnicate'' = None \<longrightarrow>
      fst (dispatch registry \<lparr>tu_id = i, tu_name = ''frobnicate'', tu_input = x\<rparr> (w, ns)) =
        \<lparr>toolUseId = i, content = ''tool not found: frobnicate'', isError = True\<rparr>)"
proof -
  let ?us = "toolUses (blocks (last (conversation s)))"
  let ?outs = "fst (dispatchAll registry ?us (world s, shown s))"
  let ?result = "\<lambda>outcome. ToolResultBlock (toolUseId outcome) (content outcome) (isError outcome)"
  have appended: "phase (step registry s DispatchTools) = Requesting
      \<and> conversation (step registry s DispatchTools) =
          conversation s @ [\<lparr>role = User, blocks = map ?result ?outs\<rparr>]"
    if a: "s = run registry (initial w0) as \<and> phase s = Dispatching"
  proof -
    from a have s: "s = run registry (initial w0) as" by (rule conjunct1)
    from a have p: "phase s = Dispatching" by (rule conjunct2)
    from p have ne: "conversation s \<noteq> []" unfolding s by (rule dispatching_has_turn)
    from p have "step registry s DispatchTools = dispatchTurn registry s" by simp
    then show ?thesis by (simp add: dispatchTurn_state [OF ne])
  qed
  have at: "blocks (last (conversation (step registry s DispatchTools))) ! k =
              ?result (fst (dispatch registry (?us ! k)
                              (snd (dispatchAll registry (take k ?us) (world s, shown s)))))"
    if a: "s = run registry (initial w0) as \<and> phase s = Dispatching" and k: "k < length ?us"
  proof -
    from appended [OF a]
    have "blocks (last (conversation (step registry s DispatchTools))) = map ?result ?outs"
      by simp
    moreover from k have "k < length ?outs" by (simp add: dispatchAll_length)
    ultimately have "blocks (last (conversation (step registry s DispatchTools))) ! k =
                       ?result (?outs ! k)"
      by simp
    with k show ?thesis by (simp add: dispatchAll_nth)
  qed
  show ?thesis
  proof (intro conjI impI)
    assume "registry (tu_name b) = None"
    then show "dispatch registry b (w, ns) =
        (\<lparr>toolUseId = tu_id b, content = ''tool not found: '' @ tu_name b, isError = True\<rparr>,
         (w, ns @ [ToolStarted (tu_name b), ToolFinished (tu_name b) False]))"
      by (rule dispatch_not_found)
  next
    assume "registry (tu_name b) = Some execute \<and> execute (tu_input b) w = (Inl failure, w')"
    then show "dispatch registry b (w, ns) =
        (\<lparr>toolUseId = tu_id b, content = failure, isError = True\<rparr>,
         (w', ns @ [ToolStarted (tu_name b), ToolFinished (tu_name b) False]))"
      by (simp add: dispatch_rejected)
  next
    assume "registry (tu_name b) = Some execute \<and> execute (tu_input b) w = (Inr returned, w')"
    then show "dispatch registry b (w, ns) =
        (\<lparr>toolUseId = tu_id b, content = returned, isError = False\<rparr>,
         (w', ns @ [ToolStarted (tu_name b), ToolFinished (tu_name b) True]))"
      by (simp add: dispatch_returned)
  next
    assume a: "s = run registry (initial w0) as \<and> phase s = Dispatching"
    from appended [OF a] show "phase (step registry s DispatchTools) = Requesting"
      by (rule conjunct1)
    from appended [OF a] show "conversation (step registry s DispatchTools) =
          conversation s @ [\<lparr>role = User, blocks = map ?result ?outs\<rparr>]"
      by (rule conjunct2)
  next
    assume h: "s = run registry (initial w0) as \<and> phase s = Dispatching
        \<and> k < length ?us \<and> registry (tu_name (?us ! k)) = None"
    then have a: "s = run registry (initial w0) as \<and> phase s = Dispatching"
      and k: "k < length ?us" and n: "registry (tu_name (?us ! k)) = None"
      by blast+
    obtain wk nk where st: "snd (dispatchAll registry (take k ?us) (world s, shown s)) = (wk, nk)"
      by (cases "snd (dispatchAll registry (take k ?us) (world s, shown s))")
    show "blocks (last (conversation (step registry s DispatchTools))) ! k =
        ToolResultBlock (tu_id (?us ! k)) (''tool not found: '' @ tu_name (?us ! k)) True"
      unfolding at [OF a k] st by (simp add: dispatch_not_found [of registry "?us ! k", OF n])
  next
    assume h: "s = run registry (initial w0) as \<and> phase s = Dispatching
        \<and> k < length ?us \<and> registry (tu_name (?us ! k)) = Some execute
        \<and> fst (execute (tu_input (?us ! k))
                 (fst (snd (dispatchAll registry (take k ?us) (world s, shown s))))) = Inl failure"
    then have a: "s = run registry (initial w0) as \<and> phase s = Dispatching"
      and k: "k < length ?us" and r: "registry (tu_name (?us ! k)) = Some execute"
      and f: "fst (execute (tu_input (?us ! k))
                 (fst (snd (dispatchAll registry (take k ?us) (world s, shown s))))) = Inl failure"
      by blast+
    obtain wk nk where st: "snd (dispatchAll registry (take k ?us) (world s, shown s)) = (wk, nk)"
      by (cases "snd (dispatchAll registry (take k ?us) (world s, shown s))")
    from f st obtain w'' where "execute (tu_input (?us ! k)) wk = (Inl failure, w'')"
      by (cases "execute (tu_input (?us ! k)) wk") simp
    with r have "dispatch registry (?us ! k) (wk, nk) =
           (\<lparr>toolUseId = tu_id (?us ! k), content = failure, isError = True\<rparr>,
            (w'', nk @ [ToolStarted (tu_name (?us ! k)), ToolFinished (tu_name (?us ! k)) False]))"
      by (rule dispatch_rejected)
    then show "blocks (last (conversation (step registry s DispatchTools))) ! k =
        ToolResultBlock (tu_id (?us ! k)) failure True"
      unfolding at [OF a k] st by simp
  next
    assume "registry ''frobnicate'' = None"
    then show "fst (dispatch registry \<lparr>tu_id = i, tu_name = ''frobnicate'', tu_input = x\<rparr> (w, ns)) =
        \<lparr>toolUseId = i, content = ''tool not found: frobnicate'', isError = True\<rparr>"
      by (simp add: dispatch_def)
  qed
qed

text \<open>
  One assistant turn asks for the unregistered \<open>frobnicate\<close> and for a \<open>read_file\<close>
  that rejects with \<open>ENOENT\<close>: the loop goes on to \<open>Requesting\<close> with both results
  appended, each with its message and marked as an error.
\<close>

theorem dispatch_total_witness:
  "([''read_file'' \<mapsto> (\<lambda>input w. (Inl ''ENOENT'', w))] :: unit ToolRegistry) ''frobnicate'' = None
   \<and> phase (run [''read_file'' \<mapsto> (\<lambda>input w. (Inl ''ENOENT'', w))] (initial ())
        [UserLine ''hi'', RequestIssued,
         BlockFinalized (FinalToolUse \<lparr>tu_id = ''t1'', tu_name = ''frobnicate'', tu_input = ''{}''\<rparr>),
         BlockFinalized (FinalToolUse \<lparr>tu_id = ''t2'', tu_name = ''read_file'', tu_input = ''{}''\<rparr>),
         StreamEnded]) = Dispatching
   \<and> phase (step [''read_file'' \<mapsto> (\<lambda>input w. (Inl ''ENOENT'', w))]
        (run [''read_file'' \<mapsto> (\<lambda>input w. (Inl ''ENOENT'', w))] (initial ())
          [UserLine ''hi'', RequestIssued,
           BlockFinalized (FinalToolUse \<lparr>tu_id = ''t1'', tu_name = ''frobnicate'', tu_input = ''{}''\<rparr>),
           BlockFinalized (FinalToolUse \<lparr>tu_id = ''t2'', tu_name = ''read_file'', tu_input = ''{}''\<rparr>),
           StreamEnded])
        DispatchTools) = Requesting
   \<and> conversation (step [''read_file'' \<mapsto> (\<lambda>input w. (Inl ''ENOENT'', w))]
        (run [''read_file'' \<mapsto> (\<lambda>input w. (Inl ''ENOENT'', w))] (initial ())
          [UserLine ''hi'', RequestIssued,
           BlockFinalized (FinalToolUse \<lparr>tu_id = ''t1'', tu_name = ''frobnicate'', tu_input = ''{}''\<rparr>),
           BlockFinalized (FinalToolUse \<lparr>tu_id = ''t2'', tu_name = ''read_file'', tu_input = ''{}''\<rparr>),
           StreamEnded])
        DispatchTools) =
       [\<lparr>role = User, blocks = [TextBlock ''hi'']\<rparr>,
        \<lparr>role = Assistant,
         blocks = [ToolUseBlock \<lparr>tu_id = ''t1'', tu_name = ''frobnicate'', tu_input = ''{}''\<rparr>,
                   ToolUseBlock \<lparr>tu_id = ''t2'', tu_name = ''read_file'', tu_input = ''{}''\<rparr>]\<rparr>,
        \<lparr>role = User,
         blocks = [ToolResultBlock ''t1'' ''tool not found: frobnicate'' True,
                   ToolResultBlock ''t2'' ''ENOENT'' True]\<rparr>]"
proof -
  let ?reg = "[''read_file'' \<mapsto> (\<lambda>input w. (Inl ''ENOENT'', w))] :: unit ToolRegistry"
  let ?as = "[UserLine ''hi'', RequestIssued,
         BlockFinalized (FinalToolUse \<lparr>tu_id = ''t1'', tu_name = ''frobnicate'', tu_input = ''{}''\<rparr>),
         BlockFinalized (FinalToolUse \<lparr>tu_id = ''t2'', tu_name = ''read_file'', tu_input = ''{}''\<rparr>),
         StreamEnded]"
  let ?s = "run ?reg (initial ()) ?as"
  have n: "?reg ''frobnicate'' = None" by simp
  have v: "?s = \<lparr>phase = Dispatching,
      conversation =
        [\<lparr>role = User, blocks = [TextBlock ''hi'']\<rparr>,
         \<lparr>role = Assistant,
          blocks = [ToolUseBlock \<lparr>tu_id = ''t1'', tu_name = ''frobnicate'', tu_input = ''{}''\<rparr>,
                    ToolUseBlock \<lparr>tu_id = ''t2'', tu_name = ''read_file'', tu_input = ''{}''\<rparr>]\<rparr>],
      collected = [], world = (), shown = []\<rparr>"
    by (simp add: initial_def finishStream_def Let_def)
  then have p: "phase ?s = Dispatching" by simp
  have "?s = run ?reg (initial ()) ?as \<and> phase ?s = Dispatching" using p by simp
  with dispatch_total [where s = ?s and registry = ?reg and ?w0.0 = "()" and as = ?as,
      THEN conjunct2, THEN conjunct2, THEN conjunct2, THEN conjunct1]
  have r: "phase (step ?reg ?s DispatchTools) = Requesting
      \<and> conversation (step ?reg ?s DispatchTools) =
          conversation ?s @
            [\<lparr>role = User,
              blocks = map (\<lambda>outcome. ToolResultBlock (toolUseId outcome) (content outcome)
                                         (isError outcome))
                (fst (dispatchAll ?reg (toolUses (blocks (last (conversation ?s))))
                       (world ?s, shown ?s)))\<rparr>]"
    by (rule mp)
  from r have a: "phase (step ?reg ?s DispatchTools) = Requesting" by (rule conjunct1)
  from r have "conversation (step ?reg ?s DispatchTools) =
          conversation ?s @
            [\<lparr>role = User,
              blocks = map (\<lambda>outcome. ToolResultBlock (toolUseId outcome) (content outcome)
                                         (isError outcome))
                (fst (dispatchAll ?reg (toolUses (blocks (last (conversation ?s))))
                       (world ?s, shown ?s)))\<rparr>]"
    by (rule conjunct2)
  then have b: "conversation (step ?reg ?s DispatchTools) =
       [\<lparr>role = User, blocks = [TextBlock ''hi'']\<rparr>,
        \<lparr>role = Assistant,
         blocks = [ToolUseBlock \<lparr>tu_id = ''t1'', tu_name = ''frobnicate'', tu_input = ''{}''\<rparr>,
                   ToolUseBlock \<lparr>tu_id = ''t2'', tu_name = ''read_file'', tu_input = ''{}''\<rparr>]\<rparr>,
        \<lparr>role = User,
         blocks = [ToolResultBlock ''t1'' ''tool not found: frobnicate'' True,
                   ToolResultBlock ''t2'' ''ENOENT'' True]\<rparr>]"
    unfolding v by (simp add: dispatch_def)
  from n p a b show ?thesis by (intro conjI)
qed

end
